theory Spec2Isabelle
  imports Main
begin

section \<open>Pages, external collaborators and the site state\<close>

text \<open>
  The embedding follows \<^verbatim>\<open>packages/core/src/Site/index.js\<close> (class \<^verbatim>\<open>Site\<close>).
  A \<^verbatim>\<open>Page\<close> object is built by \<^verbatim>\<open>createPage\<close> as \<^verbatim>\<open>new Page(pageConfig)\<close>; the fields
  below are the ones the site code reads: \<^verbatim>\<open>page.pageConfig.src\<close>,
  \<^verbatim>\<open>page.pageConfig.sourcePath\<close>, \<^verbatim>\<open>page.pageConfig.searchable\<close>, and, directly on the
  page object, \<^verbatim>\<open>page.sourcePath\<close>, \<^verbatim>\<open>page.title\<close>, \<^verbatim>\<open>page.headings\<close> and
  \<^verbatim>\<open>page.keywords\<close>. A JavaScript property that may be \<^verbatim>\<open>undefined\<close> is an option.
\<close>

record pageConfig =
  pc_src :: string
  pc_sourcePath :: string
  pc_searchable :: bool

record page =
  pageConfig :: pageConfig
  pg_sourcePath :: "string option"
  pg_title :: "string option"
  pg_headings :: "(string \<times> string) list option"
  pg_keywords :: "(string \<times> string list) list option"

text \<open>
  Functions and constants the site code calls but which live outside the file:
  \<^verbatim>\<open>FsUtil.removeExtension\<close>, \<^verbatim>\<open>path.join(this.rootPath, _)\<close>, \<^verbatim>\<open>page.isDependency\<close>,
  \<^verbatim>\<open>walkSync(this.rootPath, {globs, ignore})\<close>, the resolved path of the user variables
  file and the constants of \<^verbatim>\<open>./constants\<close>. They are parameters of the model.
\<close>

record env =
  removeExtension :: "string \<Rightarrow> string"
  joinRootPath :: "string \<Rightarrow> string"
  isDependency :: "page \<Rightarrow> string \<Rightarrow> bool"
  walkSync :: "string list \<Rightarrow> string list \<Rightarrow> string list"
  variablesPath :: string
  CONFIG_FOLDER_NAME :: string
  SITE_FOLDER_NAME :: string
  MAX_CONCURRENT_PAGE_GENERATION_PROMISES :: nat

record siteDataPage =
  sd_src :: string
  sd_title :: "string option"
  sd_headings :: "(string \<times> string) list option"
  sd_headingKeywords :: "(string \<times> string list) list option"

record siteData =
  sd_enableSearch :: bool
  sd_pages :: "siteDataPage list"

text \<open>
  The mutable fields of a \<^verbatim>\<open>Site\<close> instance. \<^verbatim>\<open>clock\<close> is the value \<^verbatim>\<open>new Date()\<close>
  returns (milliseconds). Three fields record effects on collaborators:
  \<^verbatim>\<open>generateCalls\<close> the pages whose \<^verbatim>\<open>generate\<close> was called, in call order,
  \<^verbatim>\<open>debugLog\<close> the messages given to \<^verbatim>\<open>logger.debug\<close>, \<^verbatim>\<open>rebuildRequests\<close> the
  arguments given to the debounced \<^verbatim>\<open>rebuildPageBeingViewed\<close>, and \<^verbatim>\<open>siteDataFile\<close> the
  last object written to \<^verbatim>\<open>siteData.json\<close>.
\<close>

record site =
  backgroundBuildMode :: bool
  stopGenerationTimeThreshold :: nat
  clock :: nat
  toRebuild :: "string set"
  pages :: "page list"
  currentPageViewed :: string
  currentOpenedPages :: "string list"
  onePagePath :: "string option"
  forceReload :: bool
  enableSearch :: bool
  generateCalls :: "page list"
  debugLog :: "string list"
  rebuildRequests :: "string list"
  beforeSiteGenerateCalls :: nat
  siteDataFile :: "siteData option"

definition normalizedUrl :: "env \<Rightarrow> page \<Rightarrow> string" where
  "normalizedUrl e p = removeExtension e (pc_sourcePath (pageConfig p))"

subsection \<open>changeCurrentPage\<close>

definition beforeSiteGenerate :: "site \<Rightarrow> site" where
  "beforeSiteGenerate s = s\<lparr>beforeSiteGenerateCalls := Suc (beforeSiteGenerateCalls s)\<rparr>"

definition rebuildPageBeingViewed :: "string \<Rightarrow> site \<Rightarrow> site" where
  "rebuildPageBeingViewed u s = s\<lparr>rebuildRequests := rebuildRequests s @ [u]\<rparr>"

definition changeCurrentPage :: "env \<Rightarrow> string \<Rightarrow> site \<Rightarrow> bool \<times> site" where
  "changeCurrentPage e url s =
     (let s1 = s\<lparr>currentPageViewed := joinRootPath e url\<rparr> in
      if currentPageViewed s1 \<in> toRebuild s1
      then (True, rebuildPageBeingViewed (currentPageViewed s1) (beforeSiteGenerate s1))
      else (False, s1))"

subsection \<open>writeSiteData\<close>

definition siteDataOf :: "site \<Rightarrow> siteData" where
  "siteDataOf s =
     \<lparr>sd_enableSearch = enableSearch s,
      sd_pages =
        map (\<lambda>p. \<lparr>sd_src = pc_src (pageConfig p), sd_title = pg_title p,
                  sd_headings = pg_headings p, sd_headingKeywords = pg_keywords p\<rparr>)
          (filter (\<lambda>p. pc_searchable (pageConfig p) \<and> pg_headings p \<noteq> None) (pages s))\<rparr>"

definition writeSiteData :: "site \<Rightarrow> site" where
  "writeSiteData s = s\<lparr>siteDataFile := Some (siteDataOf s)\<rparr>"

section \<open>Resolving the page set: collectAddressablePages\<close>

text \<open>
  An entry of \<^verbatim>\<open>siteConfig.pages\<close> is an object with the optional properties below;
  \<^verbatim>\<open>src\<close> is a path or a list of paths, \<^verbatim>\<open>glob\<close> a pattern or a list of patterns. A
  property that is absent (\<^verbatim>\<open>undefined\<close>) is \<open>None\<close>. The record is polymorphic in the
  type of \<^verbatim>\<open>src\<close>: the configuration's entries carry a \<open>srcField option\<close>, the objects
  handled after the split carry one path.
\<close>

datatype srcField = SrcOne string | SrcMany "string list"

datatype globField = GlobOne string | GlobMany "string list"

record 'src pageObj =
  src :: 'src
  glob :: "globField option"
  globExclude :: "string list option"
  title :: "string option"
  layout :: "string option"
  searchable :: "string option"
  frontmatter :: "(string \<times> string) list option"
  externalScripts :: "string list option"

record siteConfig =
  sc_pages :: "srcField option pageObj list"
  pagesExclude :: "string list"

text \<open>\<^verbatim>\<open>pages.filter(page => page.src)\<close>: an empty string is falsy, an array is truthy.\<close>

definition hasSrc :: "srcField option pageObj \<Rightarrow> bool" where
  "hasSrc p = (case src p of None \<Rightarrow> False | Some (SrcOne x) \<Rightarrow> x \<noteq> [] | Some (SrcMany xs) \<Rightarrow> True)"

definition hasGlob :: "srcField option pageObj \<Rightarrow> bool" where
  "hasGlob p = (case glob p of None \<Rightarrow> False | Some (GlobOne g) \<Rightarrow> g \<noteq> [] | Some (GlobMany gs) \<Rightarrow> True)"

text \<open>\<^verbatim>\<open>{ ...page, src: pageSrc }\<close>\<close>

definition withSrc :: "string \<Rightarrow> srcField option pageObj \<Rightarrow> string pageObj" where
  "withSrc x p =
     \<lparr>src = x, glob = glob p, globExclude = globExclude p, title = title p, layout = layout p,
      searchable = searchable p, frontmatter = frontmatter p, externalScripts = externalScripts p\<rparr>"

definition splitSrc :: "srcField option pageObj \<Rightarrow> string pageObj list" where
  "splitSrc p =
     (case src p of
        Some (SrcMany xs) \<Rightarrow> map (\<lambda>pageSrc. withSrc pageSrc p) xs
      | Some (SrcOne x) \<Rightarrow> [withSrc x p]
      | None \<Rightarrow> [])"

definition pagesFromSrc :: "srcField option pageObj list \<Rightarrow> string pageObj list" where
  "pagesFromSrc ps = concat (map splitSrc (filter hasSrc ps))"

text \<open>
  \<^verbatim>\<open>pagesFromSrc.filter(page => set.size === set.add(page.src).size).map(page => page.src)\<close>:
  a path is kept when the set already holds it.
\<close>

fun duplicateSrcs :: "string set \<Rightarrow> string list \<Rightarrow> string list" where
  "duplicateSrcs seen [] = []"
| "duplicateSrcs seen (x # xs) =
     (if x \<in> seen then x # duplicateSrcs seen xs else duplicateSrcs (insert x seen) xs)"

definition duplicatePages :: "string pageObj list \<Rightarrow> string list" where
  "duplicatePages ps = duplicateSrcs {} (map src ps)"

text \<open>\<^verbatim>\<open>_.uniq\<close> keeps the first occurrence of each element; \<^verbatim>\<open>Array.prototype.join\<close>.\<close>

fun uniqInto :: "'a list \<Rightarrow> 'a list \<Rightarrow> 'a list" where
  "uniqInto acc [] = acc"
| "uniqInto acc (x # xs) = (if x \<in> set acc then uniqInto acc xs else uniqInto (acc @ [x]) xs)"

definition uniq :: "'a list \<Rightarrow> 'a list" where
  "uniq xs = uniqInto [] xs"

fun join :: "string \<Rightarrow> string list \<Rightarrow> string" where
  "join sep [] = []"
| "join sep [x] = x"
| "join sep (x # y # ys) = x @ sep @ join sep (y # ys)"

definition getPageGlobPaths :: "env \<Rightarrow> srcField option pageObj \<Rightarrow> string list \<Rightarrow> string list" where
  "getPageGlobPaths e page excl =
     walkSync e
       (case glob page of Some (GlobMany gs) \<Rightarrow> gs | Some (GlobOne g) \<Rightarrow> [g] | None \<Rightarrow> [])
       ([CONFIG_FOLDER_NAME e, SITE_FOLDER_NAME e]
          @ excl @ (case globExclude page of None \<Rightarrow> [] | Some xs \<Rightarrow> xs))"

definition pagesFromGlobs :: "env \<Rightarrow> siteConfig \<Rightarrow> string pageObj list" where
  "pagesFromGlobs e cfg =
     concat (map (\<lambda>page.
         map (\<lambda>filePath.
             \<lparr>src = filePath, glob = None, globExclude = None, title = None, layout = layout page,
              searchable = searchable page, frontmatter = frontmatter page, externalScripts = None\<rparr>)
           (getPageGlobPaths e page (pagesExclude cfg)))
       (filter hasGlob (sc_pages cfg)))"

text \<open>
  \<^verbatim>\<open>_.omitBy(page, _.isUndefined)\<close>: a plain object holding the properties of the entry that are
  not \<^verbatim>\<open>undefined\<close>. A JavaScript object is a map from property names to values; the values
  an entry can hold are a string, an array of strings (\<^verbatim>\<open>glob\<close>, \<^verbatim>\<open>globExclude\<close>,
  \<^verbatim>\<open>externalScripts\<close>) and an object with string values (\<^verbatim>\<open>frontmatter\<close>, the first binding
  of a name counting). A property is either \<^verbatim>\<open>undefined\<close> (\<open>None\<close>) or defined; \<^verbatim>\<open>null\<close> in the
  configuration is a defined value like any other.
\<close>

datatype jsval = Str string | Arr "string list" | Obj "(string \<times> string) list"

type_synonym jsobj = "string \<rightharpoonup> jsval"

definition omitUndefined :: "string pageObj \<Rightarrow> jsobj" where
  "omitUndefined page =
     (\<lambda>q. if q = ''src'' then Some (Str (src page))
          else if q = ''glob'' then
            map_option (\<lambda>g. case g of GlobOne x \<Rightarrow> Str x | GlobMany xs \<Rightarrow> Arr xs) (glob page)
          else if q = ''globExclude'' then map_option Arr (globExclude page)
          else if q = ''title'' then map_option Str (title page)
          else if q = ''layout'' then map_option Str (layout page)
          else if q = ''searchable'' then map_option Str (searchable page)
          else if q = ''frontmatter'' then map_option Obj (frontmatter page)
          else if q = ''externalScripts'' then map_option Arr (externalScripts page)
          else None)"

text \<open>
  A property name is an array index when it is the canonical decimal form of an integer
  below \<open>2\<^sup>3\<^sup>2 - 1\<close>. The own enumerable properties of a string and of an array are its
  elements under their indices; these are what a spread \<^verbatim>\<open>{ ...value }\<close> copies.
\<close>

definition digitValue :: "char \<Rightarrow> nat" where
  "digitValue c = length (takeWhile (\<lambda>d. d \<noteq> c) ''0123456789'')"

definition decimalValue :: "string \<Rightarrow> nat" where
  "decimalValue k = foldl (\<lambda>n c. 10 * n + digitValue c) 0 k"

definition arrayIndex :: "string \<Rightarrow> nat option" where
  "arrayIndex k =
     (if k \<noteq> [] \<and> list_all (\<lambda>c. c \<in> set ''0123456789'') k \<and> (k = ''0'' \<or> hd k \<noteq> CHR ''0'')
         \<and> decimalValue k < 4294967295
      then Some (decimalValue k) else None)"

definition elementAt :: "'a list \<Rightarrow> string \<Rightarrow> 'a option" where
  "elementAt xs q =
     (case arrayIndex q of None \<Rightarrow> None | Some i \<Rightarrow> if i < length xs then Some (xs ! i) else None)"

fun spreadValue :: "jsval \<Rightarrow> jsobj" where
  "spreadValue (Str s) = (\<lambda>q. map_option (\<lambda>c. Str [c]) (elementAt s q))"
| "spreadValue (Arr xs) = (\<lambda>q. map_option Str (elementAt xs q))"
| "spreadValue (Obj kvs) = (\<lambda>q. map_option Str (map_of kvs q))"

text \<open>
  \<^verbatim>\<open>const filteredPages = {}\<close> is a plain object used as a dictionary: its own properties (one
  page object per key, in creation order) and its prototype, which is \<^verbatim>\<open>Object.prototype\<close>
  (\<open>None\<close>) until an assignment to the key \<^verbatim>\<open>__proto__\<close> replaces it by a page object. The
  properties \<^verbatim>\<open>Object.prototype\<close> provides are functions, apart from the accessor
  \<^verbatim>\<open>__proto__\<close>.
\<close>

record plainObject =
  ownProperties :: "(string \<times> jsobj) list"
  prototypeObject :: "jsobj option"

definition objectPrototypeKeys :: "string list" where
  "objectPrototypeKeys =
     [''constructor'', ''__defineGetter__'', ''__defineSetter__'', ''hasOwnProperty'',
      ''__lookupGetter__'', ''__lookupSetter__'', ''isPrototypeOf'', ''propertyIsEnumerable'',
      ''toString'', ''valueOf'', ''__proto__'', ''toLocaleString'']"

text \<open>\<^verbatim>\<open>key in obj\<close>: own properties, then the prototype chain.\<close>

definition hasProperty :: "string \<Rightarrow> plainObject \<Rightarrow> bool" where
  "hasProperty k obj =
     (map_of (ownProperties obj) k \<noteq> None
      \<or> (case prototypeObject obj of None \<Rightarrow> False | Some p \<Rightarrow> p k \<noteq> None)
      \<or> k \<in> set objectPrototypeKeys)"

text \<open>
  \<^verbatim>\<open>{ ...obj[key] }\<close>: the own enumerable properties of the value read under \<^verbatim>\<open>key\<close>. An own
  property gives the page object stored there; a property of the prototype gives a string,
  an array or the front matter; \<^verbatim>\<open>__proto__\<close> gives the prototype itself; a function of
  \<^verbatim>\<open>Object.prototype\<close>, \<^verbatim>\<open>Object.prototype\<close> itself and \<^verbatim>\<open>undefined\<close> have no enumerable
  property.
\<close>

definition spreadProperty :: "string \<Rightarrow> plainObject \<Rightarrow> jsobj" where
  "spreadProperty k obj =
     (case map_of (ownProperties obj) k of
        Some page \<Rightarrow> page
      | None \<Rightarrow>
          (case prototypeObject obj of
             None \<Rightarrow> Map.empty
           | Some p \<Rightarrow>
               (case p k of
                  Some v \<Rightarrow> spreadValue v
                | None \<Rightarrow> if k = ''__proto__'' then p else Map.empty)))"

text \<open>
  \<^verbatim>\<open>obj[key] = value\<close>: an own property is overwritten in place; otherwise the key
  \<^verbatim>\<open>__proto__\<close>, unless the prototype holds a property of that name, reaches the setter of
  \<^verbatim>\<open>Object.prototype\<close>, which makes the value the prototype and creates no property;
  otherwise a new own property is created after the existing ones.
\<close>

definition assignProperty :: "string \<Rightarrow> jsobj \<Rightarrow> plainObject \<Rightarrow> plainObject" where
  "assignProperty k v obj =
     (if map_of (ownProperties obj) k \<noteq> None
      then obj\<lparr>ownProperties :=
                 map (\<lambda>kv. if fst kv = k then (k, v) else kv) (ownProperties obj)\<rparr>
      else if k = ''__proto__'' \<and> (case prototypeObject obj of None \<Rightarrow> True | Some p \<Rightarrow> p k = None)
      then obj\<lparr>prototypeObject := Some v\<rparr>
      else obj\<lparr>ownProperties := ownProperties obj @ [(k, v)]\<rparr>)"

text \<open>
  The callback of \<^verbatim>\<open>pagesFromGlobs.concat(pagesFromSrc).forEach\<close>:
  \<^verbatim>\<open>filteredPages[page.src] = page.src in filteredPages ? { ...filteredPages[page.src], ...filteredPage } : filteredPage\<close>.
  In \<^verbatim>\<open>{ ...a, ...b }\<close> every property of \<^verbatim>\<open>b\<close> replaces the one of \<^verbatim>\<open>a\<close>.
\<close>

definition setPage :: "string pageObj \<Rightarrow> plainObject \<Rightarrow> plainObject" where
  "setPage page filteredPages =
     (let filteredPage = omitUndefined page in
      assignProperty (src page)
        (if hasProperty (src page) filteredPages
         then spreadProperty (src page) filteredPages ++ filteredPage
         else filteredPage)
        filteredPages)"

text \<open>
  \<^verbatim>\<open>Object.values(obj)\<close>: the values of the own properties, those whose key is an array index
  first, in ascending numeric order, then the others in creation order.
\<close>

definition objectValues :: "plainObject \<Rightarrow> jsobj list" where
  "objectValues obj =
     map snd (sort_key (\<lambda>kv. case arrayIndex (fst kv) of None \<Rightarrow> 0 | Some i \<Rightarrow> i)
                (filter (\<lambda>kv. arrayIndex (fst kv) \<noteq> None) (ownProperties obj)))
     @ map snd (filter (\<lambda>kv. arrayIndex (fst kv) = None) (ownProperties obj))"

definition collectAddressablePages :: "env \<Rightarrow> siteConfig \<Rightarrow> string + jsobj list" where
  "collectAddressablePages e cfg =
     (let fromSrc = pagesFromSrc (sc_pages cfg);
          dups = duplicatePages fromSrc
      in if dups \<noteq> []
         then Inl (''Duplicate page entries found in site config: '' @ join '', '' (uniq dups))
         else Inr (objectValues
                     (fold setPage (pagesFromGlobs e cfg @ fromSrc)
                        \<lparr>ownProperties = [], prototypeObject = None\<rparr>)))"

text \<open>
  What the dictionary keeps while pages are stored in it: its keys are distinct, none is
  \<^verbatim>\<open>__proto__\<close>, the prototype holds no property \<^verbatim>\<open>__proto__\<close>, and each page object is stored
  under its own \<^verbatim>\<open>src\<close>.
\<close>

definition wellKeyed :: "plainObject \<Rightarrow> bool" where
  "wellKeyed obj =
     (distinct (map fst (ownProperties obj))
      \<and> ''__proto__'' \<notin> fst ` set (ownProperties obj)
      \<and> (case prototypeObject obj of None \<Rightarrow> True | Some p \<Rightarrow> p ''__proto__'' = None)
      \<and> list_all (\<lambda>kv. snd kv ''src'' = Some (Str (fst kv))) (ownProperties obj))"

section \<open>Change-driven rebuild: which pages are affected\<close>

definition collectUserDefinedVariablesMapIfNeeded :: "env \<Rightarrow> string list \<Rightarrow> bool" where
  "collectUserDefinedVariablesMapIfNeeded e filePaths = (variablesPath e \<in> set filePaths)"

text \<open>\<^verbatim>\<open>Array.prototype.findIndex\<close>; the result \<^verbatim>\<open>-1\<close> is \<open>None\<close>.\<close>

fun findIndex :: "('a \<Rightarrow> bool) \<Rightarrow> 'a list \<Rightarrow> nat option" where
  "findIndex P [] = None"
| "findIndex P (x # xs) = (if P x then Some 0 else map_option Suc (findIndex P xs))"

text \<open>\<^verbatim>\<open>if (this.onePagePath)\<close>: undefined and the empty string are falsy.\<close>

definition lazyMode :: "site \<Rightarrow> bool" where
  "lazyMode s = (case onePagePath s of None \<Rightarrow> False | Some p \<Rightarrow> p \<noteq> [])"

definition isAffected :: "env \<Rightarrow> string list \<Rightarrow> bool \<Rightarrow> page \<Rightarrow> bool" where
  "isAffected e filePaths shouldRebuildAllPages page =
     (shouldRebuildAllPages \<or> list_ex (isDependency e page) filePaths)"

text \<open>
  The callback of \<^verbatim>\<open>this.pages.filter(...)\<close> in \<^verbatim>\<open>regenerateAffectedPages\<close>, with the
  state it touches: \<^verbatim>\<open>this.toRebuild\<close>, the array \<^verbatim>\<open>openedPagesToRegenerate\<close> and the
  pages the filter keeps. The array is assigned by index and has holes; it is a list of
  options as long as \<^verbatim>\<open>currentOpenedPages\<close>, a hole being \<open>None\<close> (every index assigned
  is an index of \<^verbatim>\<open>currentOpenedPages\<close>).
\<close>

definition affectedStep ::
  "env \<Rightarrow> site \<Rightarrow> string list \<Rightarrow> bool \<Rightarrow> page
    \<Rightarrow> string set \<times> page option list \<times> page list
    \<Rightarrow> string set \<times> page option list \<times> page list" where
  "affectedStep e s filePaths shouldRebuildAllPages page acc =
     (case acc of (pending, openedPagesToRegenerate, kept) \<Rightarrow>
        if isAffected e filePaths shouldRebuildAllPages page then
          if lazyMode s then
            (let normalizedSource = normalizedUrl e page in
             case findIndex (\<lambda>pagePath. pagePath = normalizedSource) (currentOpenedPages s) of
               None \<Rightarrow> (insert normalizedSource pending, openedPagesToRegenerate, kept)
             | Some openIdx \<Rightarrow> (pending, openedPagesToRegenerate[openIdx := Some page], kept))
          else (pending, openedPagesToRegenerate, kept @ [page])
        else acc)"

text \<open>
  The first part of \<^verbatim>\<open>regenerateAffectedPages\<close>, up to
  \<^verbatim>\<open>openedPagesToRegenerate.filter(page => page)\<close>: the site with its new pending set, the
  opened pages to regenerate and \<^verbatim>\<open>asyncPagesToRegenerate\<close>.
\<close>

definition affectedPages :: "env \<Rightarrow> string list \<Rightarrow> site \<Rightarrow> site \<times> page list \<times> page list" where
  "affectedPages e filePaths s =
     (let shouldRebuildAllPages = collectUserDefinedVariablesMapIfNeeded e filePaths \<or> forceReload s in
      case fold (affectedStep e s filePaths shouldRebuildAllPages) (pages s)
             (toRebuild s, replicate (length (currentOpenedPages s)) None, []) of
        (pending, openedPagesToRegenerate, asyncPagesToRegenerate) \<Rightarrow>
          (s\<lparr>toRebuild := pending\<rparr>, List.map_filter (\<lambda>x. x) openedPagesToRegenerate,
           asyncPagesToRegenerate))"

section \<open>Scheduling page generation\<close>

text \<open>
  Everything runs on one thread; what happens outside the site code while it awaits is an
  event: a millisecond passes (\<open>Tick\<close>), \<^verbatim>\<open>stopOngoingBuilds()\<close> is called (\<open>Stop\<close>), or
  the \<^verbatim>\<open>generate\<close> call of a page in flight settles (\<open>Done i ok\<close>: the \<open>i\<close>-th call in
  flight, counted in call order; \<open>ok\<close> tells whether it resolved or rejected). A schedule
  is a list of events. An \<^verbatim>\<open>await\<close> that the schedule never answers leaves the result
  \<open>Pending\<close>.
\<close>

datatype event = Tick | Stop | Done nat bool

datatype 'a outcome = Returned 'a | Thrown string | Pending

definition tick :: "site \<Rightarrow> site" where
  "tick s = s\<lparr>clock := Suc (clock s)\<rparr>"

definition stopOngoingBuilds :: "site \<Rightarrow> site" where
  "stopOngoingBuilds s = s\<lparr>stopGenerationTimeThreshold := clock s\<rparr>"

text \<open>\<^verbatim>\<open>this.backgroundBuildMode && startTime < this.stopGenerationTimeThreshold\<close>\<close>

definition stopRequested :: "nat \<Rightarrow> site \<Rightarrow> bool" where
  "stopRequested t0 s = (backgroundBuildMode s \<and> t0 < stopGenerationTimeThreshold s)"

definition logDebug :: "string \<Rightarrow> site \<Rightarrow> site" where
  "logDebug msg s = s\<lparr>debugLog := debugLog s @ [msg]\<rparr>"

text \<open>\<^verbatim>\<open>new Error(`Error while generating ${page.sourcePath}`)\<close>\<close>

definition errorWhileGenerating :: "page \<Rightarrow> string" where
  "errorWhileGenerating p =
     ''Error while generating '' @ (case pg_sourcePath p of None \<Rightarrow> ''undefined'' | Some x \<Rightarrow> x)"

definition callGenerate :: "page \<Rightarrow> site \<Rightarrow> site" where
  "callGenerate p s = s\<lparr>generateCalls := generateCalls s @ [p]\<rparr>"

text \<open>
  The statements that follow a resolved \<^verbatim>\<open>await page.generate(...)\<close> in both generation
  modes: \<^verbatim>\<open>this.toRebuild.delete(...)\<close>, then \<^verbatim>\<open>writeSiteData(false)\<close> in background mode.
  (The second await is not a point where events are read: an event that arrives there is
  read as arriving before the \<open>Done\<close>.)
\<close>

definition pageGenerated :: "env \<Rightarrow> page \<Rightarrow> site \<Rightarrow> site" where
  "pageGenerated e p s =
     (let s1 = s\<lparr>toRebuild := toRebuild s - {normalizedUrl e p}\<rparr>
      in if backgroundBuildMode s1 then writeSiteData s1 else s1)"

subsection \<open>generatePagesSequential\<close>

fun awaitGenerate :: "event list \<Rightarrow> site \<Rightarrow> bool option \<times> site \<times> event list" where
  "awaitGenerate [] s = (None, s, [])"
| "awaitGenerate (Tick # es) s = awaitGenerate es (tick s)"
| "awaitGenerate (Stop # es) s = awaitGenerate es (stopOngoingBuilds s)"
| "awaitGenerate (Done i ok # es) s = (Some ok, s, es)"

text \<open>
  \<^verbatim>\<open>utils.sequentialAsyncForEach(pages, async (page) => ...)\<close> awaits the callback for each
  page in turn; a \<^verbatim>\<open>return\<close> in the callback goes on with the next page, a \<^verbatim>\<open>throw\<close> ends
  the loop.
\<close>

fun sequentialLoop ::
  "env \<Rightarrow> nat \<Rightarrow> page list \<Rightarrow> bool \<Rightarrow> site \<Rightarrow> event list \<Rightarrow> bool outcome \<times> site \<times> event list" where
  "sequentialLoop e t0 [] completed s es = (Returned completed, s, es)"
| "sequentialLoop e t0 (page # rest) completed s es =
     (if stopRequested t0 s
      then sequentialLoop e t0 rest False
             (logDebug ''Page generation stopped at sequential generation'' s) es
      else (case awaitGenerate es (callGenerate page s) of
              (None, s1, es1) \<Rightarrow> (Pending, s1, es1)
            | (Some ok, s1, es1) \<Rightarrow>
                if ok then sequentialLoop e t0 rest completed (pageGenerated e page s1) es1
                else (Thrown (errorWhileGenerating page), s1, es1)))"

definition generatePagesSequential ::
  "env \<Rightarrow> page list \<Rightarrow> site \<Rightarrow> event list \<Rightarrow> bool outcome \<times> site \<times> event list" where
  "generatePagesSequential e ps s es = sequentialLoop e (clock s) ps True s es"

subsection \<open>generatePagesAsyncThrottled\<close>

text \<open>
  The state of one call: the \<^verbatim>\<open>context\<close> object, the callbacks left in
  \<^verbatim>\<open>pageGenerationQueue\<close> (each stands for its page), the pages whose \<^verbatim>\<open>generate\<close> is in
  flight, and the promise the call returned.
\<close>

record generationContext =
  startTime :: nat
  numPagesGenerated :: nat
  numPagesToGenerate :: nat
  isCompleted :: bool

datatype promise = Unsettled | Resolved bool | Rejected string

record throttled =
  ctx :: generationContext
  pageGenerationQueue :: "page list"
  inFlight :: "page list"
  promise :: promise

text \<open>\<^verbatim>\<open>resolve(v)\<close> and \<^verbatim>\<open>reject(err)\<close>: only the first call settles a promise.\<close>

definition settle :: "promise \<Rightarrow> throttled \<Rightarrow> throttled" where
  "settle v t = (if promise t = Unsettled then t\<lparr>promise := v\<rparr> else t)"

text \<open>The body shared by the pre-generate and the post-generate guard.\<close>

definition stopThrottled :: "throttled \<times> site \<Rightarrow> throttled \<times> site" where
  "stopThrottled ts =
     (case ts of (t, s) \<Rightarrow>
        if isCompleted (ctx t)
        then (settle (Resolved False) (t\<lparr>ctx := (ctx t)\<lparr>isCompleted := False\<rparr>\<rparr>),
              logDebug ''Page generation stopped at asynchronous generation'' s)
        else (t, s))"

text \<open>A callback of \<^verbatim>\<open>pageGenerationQueue\<close>, run up to its \<^verbatim>\<open>await page.generate(...)\<close>.\<close>

definition generatePage :: "page \<Rightarrow> throttled \<times> site \<Rightarrow> throttled \<times> site" where
  "generatePage page ts =
     (case ts of (t, s) \<Rightarrow>
        if stopRequested (startTime (ctx t)) s then stopThrottled (t, s)
        else (t\<lparr>inFlight := inFlight t @ [page]\<rparr>, callGenerate page s))"

definition generateProgressBarStatus :: "throttled \<times> site \<Rightarrow> throttled \<times> site" where
  "generateProgressBarStatus ts =
     (case ts of (t, s) \<Rightarrow>
        if stopRequested (startTime (ctx t)) s then stopThrottled (t, s)
        else
          (let t1 = t\<lparr>ctx := (ctx t)\<lparr>numPagesGenerated := numPagesGenerated (ctx t) + 1\<rparr>\<rparr> in
           if pageGenerationQueue t1 \<noteq> []
           then generatePage (last (pageGenerationQueue t1))
                  (t1\<lparr>pageGenerationQueue := butlast (pageGenerationQueue t1)\<rparr>, s)
           else if numPagesGenerated (ctx t1) = numPagesToGenerate (ctx t1)
           then (settle (Resolved True) t1, s)
           else (t1, s)))"

text \<open>The rest of a callback, run when the \<^verbatim>\<open>generate\<close> call of the \<open>i\<close>-th page in flight settles.\<close>

definition generateSettled :: "env \<Rightarrow> nat \<Rightarrow> bool \<Rightarrow> throttled \<times> site \<Rightarrow> throttled \<times> site" where
  "generateSettled e i ok ts =
     (case ts of (t, s) \<Rightarrow>
        if i < length (inFlight t) then
          (let page = inFlight t ! i;
               t1 = t\<lparr>inFlight := take i (inFlight t) @ drop (Suc i) (inFlight t)\<rparr>
           in if ok then generateProgressBarStatus (t1, pageGenerated e page s)
              else (settle (Rejected (errorWhileGenerating page)) t1, s))
        else (t, s))"

definition throttledStep :: "env \<Rightarrow> event \<Rightarrow> throttled \<times> site \<Rightarrow> throttled \<times> site" where
  "throttledStep e ev ts =
     (case ts of (t, s) \<Rightarrow>
        case ev of
          Tick \<Rightarrow> (t, tick s)
        | Stop \<Rightarrow> (t, stopOngoingBuilds s)
        | Done i ok \<Rightarrow> generateSettled e i ok (t, s))"

text \<open>
  The executor of the promise:
  \<^verbatim>\<open>pageGenerationQueue.splice(0, MAX_CONCURRENT_PAGE_GENERATION_PROMISES).forEach(generatePage => generatePage())\<close>.
\<close>

definition startThrottled :: "env \<Rightarrow> page list \<Rightarrow> site \<Rightarrow> throttled \<times> site" where
  "startThrottled e ps s =
     fold generatePage (take (MAX_CONCURRENT_PAGE_GENERATION_PROMISES e) ps)
       (\<lparr>ctx = \<lparr>startTime = clock s, numPagesGenerated = 0, numPagesToGenerate = length ps,
                isCompleted = True\<rparr>,
         pageGenerationQueue = drop (MAX_CONCURRENT_PAGE_GENERATION_PROMISES e) ps,
         inFlight = [], promise = Unsettled\<rparr>, s)"

text \<open>Awaiting the promise: events are read until it is settled.\<close>

fun awaitPromise :: "env \<Rightarrow> event list \<Rightarrow> throttled \<times> site \<Rightarrow> throttled \<times> site \<times> event list" where
  "awaitPromise e [] ts = (fst ts, snd ts, [])"
| "awaitPromise e (ev # es) ts =
     (if promise (fst ts) \<noteq> Unsettled then (fst ts, snd ts, ev # es)
      else awaitPromise e es (throttledStep e ev ts))"

definition generatePagesAsyncThrottled ::
  "env \<Rightarrow> page list \<Rightarrow> site \<Rightarrow> event list \<Rightarrow> bool outcome \<times> site \<times> event list" where
  "generatePagesAsyncThrottled e ps s es =
     (case awaitPromise e es (startThrottled e ps s) of
        (t, s1, es1) \<Rightarrow>
          ((case promise t of Unsettled \<Rightarrow> Pending | Resolved b \<Rightarrow> Returned b | Rejected m \<Rightarrow> Thrown m),
           s1, es1))"

subsection \<open>runPageGenerationTasks\<close>

record task =
  mode :: string
  task_pages :: "page list"

fun tasksLoop ::
  "env \<Rightarrow> nat \<Rightarrow> task list \<Rightarrow> bool \<Rightarrow> site \<Rightarrow> event list \<Rightarrow> bool outcome \<times> site \<times> event list" where
  "tasksLoop e t0 [] completed s es = (Returned completed, s, es)"
| "tasksLoop e t0 (task # rest) completed s es =
     (if stopRequested t0 s
      then tasksLoop e t0 rest False
             (logDebug ''Page generation stopped at generation task queue'' s) es
      else (case (if mode task = ''sequential''
                  then generatePagesSequential e (task_pages task) s es
                  else generatePagesAsyncThrottled e (task_pages task) s es) of
              (Returned b, s1, es1) \<Rightarrow> tasksLoop e t0 rest b s1 es1
            | (Thrown m, s1, es1) \<Rightarrow> (Thrown m, s1, es1)
            | (Pending, s1, es1) \<Rightarrow> (Pending, s1, es1)))"

definition runPageGenerationTasks ::
  "env \<Rightarrow> task list \<Rightarrow> site \<Rightarrow> event list \<Rightarrow> bool outcome \<times> site \<times> event list" where
  "runPageGenerationTasks e tasks s es = tasksLoop e (clock s) tasks True s es"

subsection \<open>Rebuilding the pages being viewed\<close>

text \<open>
  \<^verbatim>\<open>_rebuildPageBeingViewed\<close>: each callback of \<^verbatim>\<open>uniqueUrls.map(async ...)\<close> runs at once up to
  its \<^verbatim>\<open>await pageToRebuild.generate(...)\<close>. The second component lists the pages whose
  \<^verbatim>\<open>generate\<close> is in flight.
\<close>

definition rebuildViewedCallback :: "env \<Rightarrow> string \<Rightarrow> site \<times> page list \<Rightarrow> site \<times> page list" where
  "rebuildViewedCallback e url sp =
     (case sp of (s, flying) \<Rightarrow>
        case find (\<lambda>page. normalizedUrl e page = url) (pages s) of
          None \<Rightarrow> (s, flying)
        | Some pageToRebuild \<Rightarrow>
            (callGenerate pageToRebuild (s\<lparr>toRebuild := toRebuild s - {url}\<rparr>),
             flying @ [pageToRebuild]))"

definition rebuildPageBeingViewedNow :: "env \<Rightarrow> string list \<Rightarrow> site \<Rightarrow> site \<times> page list" where
  "rebuildPageBeingViewedNow e urls s = fold (rebuildViewedCallback e) (uniq urls) (s, [])"

text \<open>
  Two notions used to state what the filter leaves behind: the index \<^verbatim>\<open>findIndex\<close> gives a
  page in \<^verbatim>\<open>currentOpenedPages\<close>, and the last element of a list, or a default.
\<close>

definition openIndex :: "env \<Rightarrow> site \<Rightarrow> page \<Rightarrow> nat option" where
  "openIndex e s p = findIndex (\<lambda>pagePath. pagePath = normalizedUrl e p) (currentOpenedPages s)"

definition lastOr :: "'a option \<Rightarrow> 'a list \<Rightarrow> 'a option" where
  "lastOr d qs = (if qs = [] then d else Some (last qs))"

text \<open>
  Notions used to state the scheduling theorems: a site whose threshold is not ahead of its
  clock, what a stretch of execution keeps (the build mode, a threshold and a clock that only
  grow), the states a concurrent task passes through while its promise is unsettled, and the
  page count \<^verbatim>\<open>runPageGenerationTasks\<close> computes for its progress bar.
\<close>

definition clockConsistent :: "site \<Rightarrow> bool" where
  "clockConsistent s = (stopGenerationTimeThreshold s \<le> clock s)"

definition sameBuild :: "site \<Rightarrow> site \<Rightarrow> bool" where
  "sameBuild s s' =
     (backgroundBuildMode s' = backgroundBuildMode s
      \<and> stopGenerationTimeThreshold s \<le> stopGenerationTimeThreshold s'
      \<and> clock s \<le> clock s'
      \<and> stopGenerationTimeThreshold s' \<le> clock s')"

definition throttledOk :: "string list \<Rightarrow> throttled \<times> site \<Rightarrow> bool" where
  "throttledOk log0 ts =
     (case ts of (t, s) \<Rightarrow>
        (promise t = Unsettled \<and> isCompleted (ctx t) \<and> debugLog s = log0)
        \<or> (promise t = Resolved False \<and> (\<exists>l. l \<noteq> [] \<and> debugLog s = log0 @ l)
             \<and> stopRequested (startTime (ctx t)) s)
        \<or> (promise t = Resolved True \<and> debugLog s = log0)
        \<or> ((\<exists>m. promise t = Rejected m) \<and> debugLog s = log0))"

definition startingOk :: "string list \<Rightarrow> throttled \<times> site \<Rightarrow> bool" where
  "startingOk log0 ts =
     (throttledOk log0 ts \<and> promise (fst ts) \<noteq> Resolved True
      \<and> (\<forall>m. promise (fst ts) \<noteq> Rejected m)
      \<and> (promise (fst ts) = Resolved False \<longrightarrow> \<not> isCompleted (ctx (fst ts))))"

definition sameTime :: "site \<Rightarrow> site \<Rightarrow> bool" where
  "sameTime s s' =
     (backgroundBuildMode s' = backgroundBuildMode s
      \<and> stopGenerationTimeThreshold s' = stopGenerationTimeThreshold s
      \<and> clock s' = clock s \<and> debugLog s' = debugLog s)"



text \<open>
  The invariants of a concurrent task: how the queue and the calls made so far relate to the
  page list, and how the counters relate to the state of the promise.
\<close>

definition dispatchInv :: "env \<Rightarrow> page list \<Rightarrow> site \<Rightarrow> throttled \<times> site \<Rightarrow> bool" where
  "dispatchInv e ps s0 ts =
     (case ts of (t, s) \<Rightarrow>
        pageGenerationQueue t
          = take (length (pageGenerationQueue t)) (drop (MAX_CONCURRENT_PAGE_GENERATION_PROMISES e) ps)
        \<and> generateCalls s
          = generateCalls s0 @ take (MAX_CONCURRENT_PAGE_GENERATION_PROMISES e) ps
              @ rev (drop (length (pageGenerationQueue t))
                      (drop (MAX_CONCURRENT_PAGE_GENERATION_PROMISES e) ps))
        \<and> length (inFlight t) \<le> MAX_CONCURRENT_PAGE_GENERATION_PROMISES e)"

definition countInv :: "nat \<Rightarrow> throttled \<Rightarrow> bool" where
  "countInv n t =
     (numPagesToGenerate (ctx t) = n
      \<and> numPagesGenerated (ctx t) + length (inFlight t) + length (pageGenerationQueue t) \<le> n
      \<and> (promise t = Resolved True \<longrightarrow> numPagesGenerated (ctx t) = n \<and> 0 < n)
      \<and> (promise t = Unsettled \<longrightarrow> isCompleted (ctx t) \<and> (numPagesGenerated (ctx t) < n \<or> n = 0))
      \<and> (promise t = Resolved False \<or> (\<exists>msg. promise t = Rejected msg) \<longrightarrow>
           numPagesGenerated (ctx t) + length (inFlight t) + length (pageGenerationQueue t) < n))"

text \<open>
  The calls of a sequential task that have resolved when it ends: all of them when it
  returns, all but the last when the last one rejected or is still awaited. And whether some
  page has a given key.
\<close>

definition completedCalls :: "'a outcome \<Rightarrow> page list \<Rightarrow> page list" where
  "completedCalls r calls = (case r of Returned b \<Rightarrow> calls | Thrown m \<Rightarrow> butlast calls | Pending \<Rightarrow> butlast calls)"

definition pageExists :: "env \<Rightarrow> site \<Rightarrow> string \<Rightarrow> bool" where
  "pageExists e s u = list_ex (\<lambda>page. normalizedUrl e page = u) (pages s)"




subsection \<open>createPage\<close>

text \<open>
  Modelled from the spec: the class \<^verbatim>\<open>Page\<close> lives outside the file. The specification gives a
  page its identity (the source key held by its \<^verbatim>\<open>pageConfig\<close>), a dependency predicate and
  the \<^verbatim>\<open>generate\<close> operation; so the object built by \<^verbatim>\<open>new Page(pageConfig)\<close> carries the
  configuration in \<^verbatim>\<open>pageConfig\<close> and has no property \<^verbatim>\<open>sourcePath\<close>, \<^verbatim>\<open>title\<close>,
  \<^verbatim>\<open>headings\<close> or \<^verbatim>\<open>keywords\<close> of its own before it is generated. The configuration is
  what \<^verbatim>\<open>createPage\<close> computes: \<^verbatim>\<open>sourcePath = path.join(this.rootPath, config.pageSrc)\<close>,
  \<^verbatim>\<open>src = config.pageSrc\<close>, \<^verbatim>\<open>searchable = this.siteConfig.enableSearch && config.searchable\<close>;
  \<^verbatim>\<open>createNewPage\<close> passes \<^verbatim>\<open>page.src\<close> and \<^verbatim>\<open>page.searchable !== no\<close>.
\<close>

definition createPage :: "env \<Rightarrow> site \<Rightarrow> string \<Rightarrow> bool \<Rightarrow> page" where
  "createPage e s pageSrc searchableConfig =
     \<lparr>pageConfig = \<lparr>pc_src = pageSrc, pc_sourcePath = joinRootPath e pageSrc,
                     pc_searchable = (enableSearch s \<and> searchableConfig)\<rparr>,
      pg_sourcePath = None, pg_title = None, pg_headings = None, pg_keywords = None\<rparr>"

definition createNewPage :: "env \<Rightarrow> site \<Rightarrow> string pageObj \<Rightarrow> page" where
  "createNewPage e s page = createPage e s (src page) (searchable page \<noteq> Some ''no'')"

section \<open>Example inputs\<close>

definition exampleEnv :: env where
  "exampleEnv =
     \<lparr>removeExtension = (\<lambda>p. takeWhile (\<lambda>c. c \<noteq> CHR ''.'') p),
      joinRootPath = (\<lambda>u. ''/site/'' @ u),
      isDependency = (\<lambda>p f. f = pc_sourcePath (pageConfig p)),
      walkSync = (\<lambda>globs ignore. [''a.md'', ''b.md'']),
      variablesPath = ''/site/_markbind/variables.md'',
      CONFIG_FOLDER_NAME = ''_markbind'', SITE_FOLDER_NAME = ''_site'',
      MAX_CONCURRENT_PAGE_GENERATION_PROMISES = 2\<rparr>"

definition entry :: "srcField option \<Rightarrow> globField option \<Rightarrow> string option \<Rightarrow> string option
    \<Rightarrow> srcField option pageObj" where
  "entry s g t l =
     \<lparr>src = s, glob = g, globExclude = None, title = t, layout = l, searchable = None,
      frontmatter = None, externalScripts = None\<rparr>"

definition exampleConfig :: siteConfig where
  "exampleConfig =
     \<lparr>sc_pages = [entry (Some (SrcOne ''a.md'')) None (Some ''A'') (Some ''own''),
                  (entry None (Some (GlobOne ''*.md'')) (Some ''G'') (Some ''first''))
                    \<lparr>searchable := Some ''no''\<rparr>,
                  entry None (Some (GlobOne ''**/*.md'')) None (Some ''second'')],
      pagesExclude = []\<rparr>"

definition exampleDuplicateConfig :: siteConfig where
  "exampleDuplicateConfig =
     \<lparr>sc_pages = [entry (Some (SrcMany [''a.md'', ''c.md''])) None None None,
                  entry (Some (SrcOne ''a.md'')) None (Some ''A'') None,
                  entry (Some (SrcOne ''c.md'')) None None None],
      pagesExclude = []\<rparr>"

definition exampleProtoConfig :: siteConfig where
  "exampleProtoConfig =
     \<lparr>sc_pages = [entry (Some (SrcOne ''__proto__'')) None (Some ''P'') None,
                  entry (Some (SrcOne ''a.md'')) None (Some ''A'') None],
      pagesExclude = []\<rparr>"

definition exampleInheritConfig :: siteConfig where
  "exampleInheritConfig =
     \<lparr>sc_pages = [entry (Some (SrcOne ''__proto__'')) None (Some ''P'') None,
                  entry (Some (SrcOne ''a.md'')) None (Some ''A'') None,
                  entry (Some (SrcOne ''title'')) None None None],
      pagesExclude = []\<rparr>"

definition exampleNumericConfig :: siteConfig where
  "exampleNumericConfig =
     \<lparr>sc_pages = [entry (Some (SrcMany [''b.md'', ''10'', ''9''])) None None None],
      pagesExclude = []\<rparr>"

definition examplePageA :: "string pageObj" where
  "examplePageA =
     \<lparr>src = ''a.md'', glob = None, globExclude = None, title = Some ''A'', layout = Some ''lay'',
      searchable = None, frontmatter = None, externalScripts = None\<rparr>"

definition examplePageB :: "string pageObj" where
  "examplePageB =
     \<lparr>src = ''b.md'', glob = None, globExclude = None, title = None, layout = Some ''lay'',
      searchable = None, frontmatter = None, externalScripts = None\<rparr>"

definition mkPage :: "string \<Rightarrow> bool \<Rightarrow> (string \<times> string) list option \<Rightarrow> page" where
  "mkPage s b h =
     \<lparr>pageConfig = \<lparr>pc_src = s, pc_sourcePath = ''/site/'' @ s, pc_searchable = b\<rparr>,
      pg_sourcePath = None, pg_title = (case h of None \<Rightarrow> None | Some x \<Rightarrow> Some s),
      pg_headings = h, pg_keywords = (case h of None \<Rightarrow> None | Some x \<Rightarrow> Some [])\<rparr>"

definition mkSite :: "bool \<Rightarrow> string option \<Rightarrow> page list \<Rightarrow> string set \<Rightarrow> site" where
  "mkSite bg lazy ps pending =
     \<lparr>backgroundBuildMode = bg, stopGenerationTimeThreshold = 0, clock = 0, toRebuild = pending,
      pages = ps, currentPageViewed = ''/site/index'', currentOpenedPages = [],
      onePagePath = lazy, forceReload = False, enableSearch = True, generateCalls = [],
      debugLog = [], rebuildRequests = [], beforeSiteGenerateCalls = 0, siteDataFile = None\<rparr>"

definition indexPage :: page where
  "indexPage = mkPage ''index.md'' True (Some [(''welcome'', ''Welcome'')])"

definition guidePage :: page where
  "guidePage = mkPage ''guide.md'' True None"

definition exampleLazySite :: site where
  "exampleLazySite = mkSite False (Some ''index.md'') [indexPage, guidePage] {''/site/guide''}"

definition exampleOpenedSite :: site where
  "exampleOpenedSite =
     (mkSite False (Some ''index.md'') [indexPage, guidePage] {})\<lparr>currentOpenedPages := [''/site/index'']\<rparr>"


definition exampleBackgroundSite :: site where
  "exampleBackgroundSite = mkSite True None [] {''/site/index'', ''/site/guide'', ''/site/about''}"

definition exampleForegroundSite :: site where
  "exampleForegroundSite = mkSite False None [] {''/site/index'', ''/site/guide''}"

section \<open>changeCurrentPage\<close>

text \<open>
  C10. \<^verbatim>\<open>changeCurrentPage(normalizedUrl)\<close> always sets \<^verbatim>\<open>currentPageViewed\<close> to the
  path joined with the root; it returns true exactly when that path is in \<^verbatim>\<open>toRebuild\<close>
  at the time of the call, and exactly then it hands the path to the (debounced)
  \<^verbatim>\<open>rebuildPageBeingViewed\<close>; otherwise no rebuild is requested. The pending set itself is
  not changed by the call.
\<close>

theorem changeCurrentPage_resolves_and_rebuilds:
  "currentPageViewed (snd (changeCurrentPage e url s)) = joinRootPath e url
   \<and> fst (changeCurrentPage e url s) = (joinRootPath e url \<in> toRebuild s)
   \<and> rebuildRequests (snd (changeCurrentPage e url s)) =
       (if joinRootPath e url \<in> toRebuild s then rebuildRequests s @ [joinRootPath e url]
        else rebuildRequests s)
   \<and> toRebuild (snd (changeCurrentPage e url s)) = toRebuild s"
  by (simp add: changeCurrentPage_def rebuildPageBeingViewed_def beforeSiteGenerate_def Let_def)

section \<open>writeSiteData\<close>

text \<open>
  C8, as stated, fails: a page flagged searchable whose \<^verbatim>\<open>headings\<close> are still undefined
  (in a lazy build, a page that has not been generated yet) is left out of the index.
\<close>

theorem writeSiteData_searchable_counterexample:
  "pc_searchable (pageConfig guidePage)
   \<and> guidePage \<in> set (pages exampleLazySite)
   \<and> pc_src (pageConfig guidePage) \<notin> set (map sd_src (sd_pages (siteDataOf exampleLazySite)))"
  by (simp add: siteDataOf_def exampleLazySite_def mkSite_def guidePage_def indexPage_def mkPage_def)

text \<open>
  C8, amended. \<^verbatim>\<open>writeSiteData\<close> writes an object with \<^verbatim>\<open>enableSearch\<close> taken from the site
  configuration and a \<^verbatim>\<open>pages\<close> list that holds, in page order, one entry
  \<^verbatim>\<open>{src, title, headings, headingKeywords}\<close> for each page that is flagged searchable and
  whose headings are defined.
\<close>

theorem writeSiteData_index:
  "siteDataFile (writeSiteData s) = Some (siteDataOf s)
   \<and> sd_enableSearch (siteDataOf s) = enableSearch s
   \<and> map sd_src (sd_pages (siteDataOf s))
       = map (\<lambda>p. pc_src (pageConfig p))
           (filter (\<lambda>p. pc_searchable (pageConfig p) \<and> pg_headings p \<noteq> None) (pages s))
   \<and> map sd_title (sd_pages (siteDataOf s))
       = map pg_title (filter (\<lambda>p. pc_searchable (pageConfig p) \<and> pg_headings p \<noteq> None) (pages s))
   \<and> map sd_headings (sd_pages (siteDataOf s))
       = map pg_headings (filter (\<lambda>p. pc_searchable (pageConfig p) \<and> pg_headings p \<noteq> None) (pages s))
   \<and> map sd_headingKeywords (sd_pages (siteDataOf s))
       = map pg_keywords (filter (\<lambda>p. pc_searchable (pageConfig p) \<and> pg_headings p \<noteq> None) (pages s))"
  by (simp add: writeSiteData_def siteDataOf_def comp_def)

section \<open>collectAddressablePages: duplicates and merging\<close>

lemma map_of_overwrite:
  "map_of (map (\<lambda>kv. if fst kv = k then (k, v) else kv) xs) k'
     = (if k' = k \<and> map_of xs k \<noteq> None then Some v else map_of xs k')"
  by (induction xs) auto

lemma map_fst_overwrite:
  "map fst (map (\<lambda>kv. if fst kv = k then (k, v) else kv) xs) = map fst xs"
  by (induction xs) auto

lemma omitUndefined_src: "omitUndefined p ''src'' = Some (Str (src p))"
  by (simp add: omitUndefined_def)

lemma omitUndefined_proto: "omitUndefined p ''__proto__'' = None"
  by (simp add: omitUndefined_def)

lemma map_of_None_iff: "map_of xs k = None \<longleftrightarrow> k \<notin> fst ` set xs"
  by (simp add: map_of_eq_None_iff)

lemma setPage_keys:
  assumes "wellKeyed obj"
  shows "map fst (ownProperties (setPage p obj))
     = (if src p = ''__proto__'' \<or> src p \<in> fst ` set (ownProperties obj)
        then map fst (ownProperties obj) else map fst (ownProperties obj) @ [src p])"
proof (cases "map_of (ownProperties obj) (src p) = None")
  case True
  then have notin: "src p \<notin> fst ` set (ownProperties obj)" by (simp add: map_of_None_iff)
  from assms have "case prototypeObject obj of None \<Rightarrow> True | Some q \<Rightarrow> q ''__proto__'' = None"
    by (simp add: wellKeyed_def)
  with True notin show ?thesis
    by (auto simp: setPage_def assignProperty_def Let_def split: option.splits)
next
  case False
  then have "src p \<in> fst ` set (ownProperties obj)" by (simp add: map_of_None_iff)
  with False show ?thesis
    by (simp add: setPage_def assignProperty_def Let_def map_fst_overwrite)
qed

lemma setPage_other:
  "k \<noteq> src p \<Longrightarrow> map_of (ownProperties (setPage p obj)) k = map_of (ownProperties obj) k"
  by (simp add: setPage_def assignProperty_def Let_def map_of_overwrite map_add_def
      split: option.splits)

lemma setPage_value:
  assumes w: "wellKeyed obj" and k: "src p \<noteq> ''__proto__''"
  shows "\<exists>r. map_of (ownProperties (setPage p obj)) (src p) = Some r
     \<and> (\<forall>q v. omitUndefined p q = Some v \<longrightarrow> r q = Some v)
     \<and> (\<forall>old q. map_of (ownProperties obj) (src p) = Some old \<longrightarrow> omitUndefined p q = None
           \<longrightarrow> r q = old q)"
proof (cases "map_of (ownProperties obj) (src p)")
  case None
  let ?v = "if hasProperty (src p) obj then spreadProperty (src p) obj ++ omitUndefined p
            else omitUndefined p"
  from None k have "map_of (ownProperties (setPage p obj)) (src p) = Some ?v"
    by (simp add: setPage_def assignProperty_def Let_def map_add_def)
  moreover have "\<forall>q v. omitUndefined p q = Some v \<longrightarrow> ?v q = Some v"
    by (simp add: map_add_def)
  ultimately show ?thesis using None by auto
next
  case (Some old)
  then have h: "hasProperty (src p) obj" by (simp add: hasProperty_def)
  from Some have s: "spreadProperty (src p) obj = old" by (simp add: spreadProperty_def)
  from Some h s have "map_of (ownProperties (setPage p obj)) (src p) = Some (old ++ omitUndefined p)"
    by (simp add: setPage_def assignProperty_def Let_def map_of_overwrite)
  moreover have "\<forall>q v. omitUndefined p q = Some v \<longrightarrow> (old ++ omitUndefined p) q = Some v"
    by (simp add: map_add_def)
  moreover have "\<forall>q. omitUndefined p q = None \<longrightarrow> (old ++ omitUndefined p) q = old q"
    by (simp add: map_add_def)
  ultimately show ?thesis using Some by auto
qed

lemma setPage_wellKeyed:
  assumes w: "wellKeyed obj"
  shows "wellKeyed (setPage p obj)"
proof -
  let ?obj' = "setPage p obj"
  from w have d: "distinct (map fst (ownProperties obj))"
    and np: "''__proto__'' \<notin> fst ` set (ownProperties obj)"
    and pr: "case prototypeObject obj of None \<Rightarrow> True | Some q \<Rightarrow> q ''__proto__'' = None"
    and sr: "list_all (\<lambda>kv. snd kv ''src'' = Some (Str (fst kv))) (ownProperties obj)"
    by (simp_all add: wellKeyed_def)
  have keys: "map fst (ownProperties ?obj')
     = (if src p = ''__proto__'' \<or> src p \<in> fst ` set (ownProperties obj)
        then map fst (ownProperties obj) else map fst (ownProperties obj) @ [src p])"
    by (rule setPage_keys [OF w])
  have 1: "distinct (map fst (ownProperties ?obj'))"
    unfolding keys using d by auto
  have 2: "''__proto__'' \<notin> fst ` set (ownProperties ?obj')"
  proof -
    have "set (map fst (ownProperties ?obj')) \<subseteq> set (map fst (ownProperties obj)) \<union> (if src p = ''__proto__'' then {} else {src p})"
      unfolding keys by auto
    with np show ?thesis by (auto split: if_splits)
  qed
  have 3: "case prototypeObject ?obj' of None \<Rightarrow> True | Some q \<Rightarrow> q ''__proto__'' = None"
  proof (cases "src p = ''__proto__''")
    case True
    from np have none: "map_of (ownProperties obj) ''__proto__'' = None"
      by (simp add: map_of_None_iff)
    have sp: "spreadProperty ''__proto__'' obj ''__proto__'' = None"
      using none pr by (simp add: spreadProperty_def split: option.splits)
    from True none pr sp show ?thesis
      by (simp add: setPage_def assignProperty_def Let_def omitUndefined_proto map_add_def
          split: option.splits)
  next
    case False
    then have "prototypeObject ?obj' = prototypeObject obj"
      by (simp add: setPage_def assignProperty_def Let_def)
    with pr show ?thesis by simp
  qed
  have 4: "list_all (\<lambda>kv. snd kv ''src'' = Some (Str (fst kv))) (ownProperties ?obj')"
  proof -
    let ?v = "if hasProperty (src p) obj then spreadProperty (src p) obj ++ omitUndefined p
            else omitUndefined p"
    have v: "?v ''src'' = Some (Str (src p))"
      by (simp add: map_add_def omitUndefined_src)
    have "ownProperties ?obj' = ownProperties obj
        \<or> ownProperties ?obj' = ownProperties obj @ [(src p, ?v)]
        \<or> ownProperties ?obj' = map (\<lambda>kv. if fst kv = src p then (src p, ?v) else kv) (ownProperties obj)"
      by (simp add: setPage_def assignProperty_def Let_def)
    then show ?thesis
    proof (elim disjE)
      assume "ownProperties ?obj' = ownProperties obj"
      with sr show ?thesis by simp
    next
      assume "ownProperties ?obj' = ownProperties obj @ [(src p, ?v)]"
      with sr v show ?thesis by simp
    next
      assume a: "ownProperties ?obj'
         = map (\<lambda>kv. if fst kv = src p then (src p, ?v) else kv) (ownProperties obj)"
      show ?thesis unfolding a using sr v by (auto simp: list_all_iff)
    qed
  qed
  from 1 2 3 4 show ?thesis by (simp add: wellKeyed_def)
qed

lemma fold_setPage_wellKeyed:
  "wellKeyed obj \<Longrightarrow> wellKeyed (fold setPage ps obj)"
  by (induction ps arbitrary: obj) (simp_all add: setPage_wellKeyed)

lemma fold_setPage_keys:
  "wellKeyed obj \<Longrightarrow>
   fst ` set (ownProperties (fold setPage ps obj))
     = fst ` set (ownProperties obj) \<union> (src ` set ps - {''__proto__''})"
proof (induction ps arbitrary: obj)
  case Nil
  then show ?case by simp
next
  case (Cons p ps)
  have "set (map fst (ownProperties (setPage p obj)))
      = fst ` set (ownProperties obj) \<union> ({src p} - {''__proto__''})"
    unfolding setPage_keys [OF Cons.prems] by auto
  then have "fst ` set (ownProperties (setPage p obj))
      = fst ` set (ownProperties obj) \<union> ({src p} - {''__proto__''})" by simp
  with Cons.IH [OF setPage_wellKeyed [OF Cons.prems], of p] show ?case by auto
qed

lemma fold_setPage_later_wins:
  assumes w: "wellKeyed obj"
  shows "i < length ps \<Longrightarrow> src (ps ! i) \<noteq> ''__proto__'' \<Longrightarrow> omitUndefined (ps ! i) q = Some v \<Longrightarrow>
     (\<forall>j. i < j \<and> j < length ps \<and> src (ps ! j) = src (ps ! i) \<longrightarrow> omitUndefined (ps ! j) q = None) \<Longrightarrow>
     \<exists>r. map_of (ownProperties (fold setPage ps obj)) (src (ps ! i)) = Some r \<and> r q = Some v"
proof (induction ps arbitrary: i rule: rev_induct)
  case Nil
  then show ?case by simp
next
  case (snoc x xs)
  let ?mid = "fold setPage xs obj"
  have wm: "wellKeyed ?mid" by (rule fold_setPage_wellKeyed [OF w])
  have f: "fold setPage (xs @ [x]) obj = setPage x ?mid" by simp
  show ?case
  proof (cases "i = length xs")
    case True
    then have px: "(xs @ [x]) ! i = x" by simp
    from snoc.prems(2,3) px have k: "src x \<noteq> ''__proto__''" and qv: "omitUndefined x q = Some v"
      by simp_all
    from setPage_value [OF wm k] qv show ?thesis
      unfolding f px by blast
  next
    case False
    with snoc.prems(1) have il: "i < length xs" by simp
    then have pi: "(xs @ [x]) ! i = xs ! i" by (simp add: nth_append)
    from snoc.prems(2,3) pi have k: "src (xs ! i) \<noteq> ''__proto__''"
      and qv: "omitUndefined (xs ! i) q = Some v" by simp_all
    have later: "\<forall>j. i < j \<and> j < length xs \<and> src (xs ! j) = src (xs ! i)
        \<longrightarrow> omitUndefined (xs ! j) q = None"
    proof (intro allI impI)
      fix j assume j: "i < j \<and> j < length xs \<and> src (xs ! j) = src (xs ! i)"
      then have "(xs @ [x]) ! j = xs ! j" by (simp add: nth_append)
      with snoc.prems(4) [rule_format, of j] j pi show "omitUndefined (xs ! j) q = None"
        by simp
    qed
    from snoc.IH [OF il k qv later]
    obtain r0 where r0: "map_of (ownProperties ?mid) (src (xs ! i)) = Some r0" "r0 q = Some v"
      by blast
    show ?thesis
    proof (cases "src x = src (xs ! i)")
      case True
      have "(xs @ [x]) ! length xs = x" by simp
      with snoc.prems(4) [rule_format, of "length xs"] il pi True
      have none: "omitUndefined x q = None" by simp
      from True k have kx: "src x \<noteq> ''__proto__''" by simp
      from setPage_value [OF wm kx]
      obtain r where r: "map_of (ownProperties (setPage x ?mid)) (src x) = Some r"
        and keep: "\<forall>old q. map_of (ownProperties ?mid) (src x) = Some old
              \<longrightarrow> omitUndefined x q = None \<longrightarrow> r q = old q"
        by blast
      from keep r0(1) none True have "r q = r0 q" by simp
      with r r0(2) True show ?thesis unfolding f pi by simp
    next
      case False
      then have "map_of (ownProperties (setPage x ?mid)) (src (xs ! i))
          = map_of (ownProperties ?mid) (src (xs ! i))"
        by (simp add: setPage_other)
      with r0 show ?thesis unfolding f pi by simp
    qed
  qed
qed

lemma objectValues_set:
  "set (objectValues obj) = snd ` set (ownProperties obj)"
proof -
  let ?P = "\<lambda>kv :: string \<times> jsobj. arrayIndex (fst kv) \<noteq> None"
  have "set (filter ?P (ownProperties obj)) \<union> set (filter (\<lambda>kv. \<not> ?P kv) (ownProperties obj))
      = set (ownProperties obj)" by auto
  then have "snd ` set (filter ?P (ownProperties obj))
      \<union> snd ` set (filter (\<lambda>kv. \<not> ?P kv) (ownProperties obj)) = snd ` set (ownProperties obj)"
    by (simp only: image_Un [symmetric])
  then show ?thesis by (simp add: objectValues_def)
qed

lemma objectValues_src_distinct:
  assumes "wellKeyed obj"
  shows "distinct (map (\<lambda>r. r ''src'') (objectValues obj))"
proof -
  let ?own = "ownProperties obj"
  let ?A = "sort_key (\<lambda>kv. case arrayIndex (fst kv) of None \<Rightarrow> 0 | Some i \<Rightarrow> i)
              (filter (\<lambda>kv. arrayIndex (fst kv) \<noteq> None) ?own)"
  let ?B = "filter (\<lambda>kv. arrayIndex (fst kv) = None) ?own"
  from assms have d: "distinct (map fst ?own)"
    and sr: "\<forall>kv \<in> set ?own. snd kv ''src'' = Some (Str (fst kv))"
    by (simp_all add: wellKeyed_def list_all_iff)
  from d have d0: "distinct ?own" by (simp add: distinct_map)
  have dAB: "distinct (?A @ ?B)"
    using d0 by auto
  have sub: "set (?A @ ?B) \<subseteq> set ?own" by auto
  have inj: "inj_on (\<lambda>kv. snd kv ''src'') (set ?own)"
  proof (rule inj_onI)
    fix a b assume a: "a \<in> set ?own" and b: "b \<in> set ?own"
      and eq: "snd a ''src'' = snd b ''src''"
    from sr a b eq have "fst a = fst b" by simp
    with d a b show "a = b" by (metis distinct_map inj_onD)
  qed
  have "distinct (map (\<lambda>kv. snd kv ''src'') (?A @ ?B))"
    using dAB inj_on_subset [OF inj sub] by (simp only: distinct_map)
  moreover have "map (\<lambda>r. r ''src'') (objectValues obj) = map (\<lambda>kv. snd kv ''src'') (?A @ ?B)"
    by (simp add: objectValues_def comp_def)
  ultimately show ?thesis by simp
qed

lemma objectValues_src_set:
  assumes "wellKeyed obj"
  shows "set (map (\<lambda>r. r ''src'') (objectValues obj))
     = (\<lambda>k. Some (Str k)) ` fst ` set (ownProperties obj)"
proof -
  from assms have sr: "\<forall>kv \<in> set (ownProperties obj). snd kv ''src'' = Some (Str (fst kv))"
    by (simp add: wellKeyed_def list_all_iff)
  have "set (map (\<lambda>r. r ''src'') (objectValues obj))
      = (\<lambda>kv. snd kv ''src'') ` set (ownProperties obj)"
    by (simp add: objectValues_set image_image)
  also have "\<dots> = (\<lambda>kv. Some (Str (fst kv))) ` set (ownProperties obj)"
    using sr by (intro image_cong) simp_all
  finally show ?thesis by (simp add: image_image)
qed

lemma wellKeyed_empty: "wellKeyed \<lparr>ownProperties = [], prototypeObject = None\<rparr>"
  by (simp add: wellKeyed_def)

lemma count_list_ge2_Cons:
  "2 \<le> count_list (a # xs) x \<longleftrightarrow> (if x = a then x \<in> set xs else 2 \<le> count_list xs x)"
proof (cases "x = a")
  case True
  have "1 \<le> count_list xs a \<longleftrightarrow> a \<in> set xs"
    using count_list_0_iff [of xs a] by arith
  with True show ?thesis by simp
next
  case False
  then show ?thesis by simp
qed

lemma count_list_ge2_in_set: "2 \<le> count_list xs x \<Longrightarrow> x \<in> set xs"
  using count_list_0_iff [of xs x] by arith

lemma duplicateSrcs_mem:
  "x \<in> set (duplicateSrcs seen xs) \<longleftrightarrow> x \<in> set xs \<and> (x \<in> seen \<or> 2 \<le> count_list xs x)"
proof (induction xs arbitrary: seen)
  case Nil
  then show ?case by simp
next
  case (Cons a xs)
  show ?case
  proof (cases "a \<in> seen")
    case True
    show ?thesis
      unfolding count_list_ge2_Cons
      using True Cons.IH [of seen] count_list_ge2_in_set [of xs x]
      by (cases "x = a") simp_all
  next
    case False
    show ?thesis
      unfolding count_list_ge2_Cons
      using False Cons.IH [of "insert a seen"] count_list_ge2_in_set [of xs x]
      by (cases "x = a") auto
  qed
qed

lemma duplicateSrcs_Nil_iff:
  "duplicateSrcs seen xs = [] \<longleftrightarrow> distinct xs \<and> set xs \<inter> seen = {}"
  by (induction xs arbitrary: seen) auto

lemma uniqInto_set: "set (uniqInto acc xs) = set acc \<union> set xs"
  by (induction xs arbitrary: acc) auto

lemma uniqInto_distinct: "distinct acc \<Longrightarrow> distinct (uniqInto acc xs)"
  by (induction xs arbitrary: acc) auto

lemma duplicatePages_Nil_iff: "duplicatePages ps = [] \<longleftrightarrow> distinct (map src ps)"
  by (simp add: duplicatePages_def duplicateSrcs_Nil_iff)

lemma uniq_duplicatePages:
  "distinct (uniq (duplicatePages ps)) \<and>
   set (uniq (duplicatePages ps)) = {x. 2 \<le> count_list (map src ps) x}"
proof -
  have "set (duplicatePages ps) = {x. 2 \<le> count_list (map src ps) x}"
    using duplicateSrcs_mem [of _ "{}" "map src ps"] count_list_ge2_in_set [of "map src ps"]
    unfolding duplicatePages_def by blast
  then show ?thesis
    by (simp add: uniq_def uniqInto_set uniqInto_distinct)
qed

lemma join_names:
  "x \<in> set xs \<Longrightarrow> \<exists>u v. join sep xs = u @ x @ v"
proof (induction sep xs rule: join.induct)
  case (1 sep)
  then show ?case by simp
next
  case (2 sep y)
  then have "join sep [y] = [] @ x @ []" by simp
  then show ?case by blast
next
  case (3 sep y z zs)
  show ?case
  proof (cases "x = y")
    case True
    then have "join sep (y # z # zs) = [] @ x @ (sep @ join sep (z # zs))" by simp
    then show ?thesis by blast
  next
    case False
    with 3 obtain u v where "join sep (z # zs) = u @ x @ v" by auto
    then have "join sep (y # z # zs) = (y @ sep @ u) @ x @ v" by simp
    then show ?thesis by blast
  qed
qed

lemma collect_result:
  assumes "collectAddressablePages e cfg = Inr aps"
  shows "aps = objectValues (fold setPage (pagesFromGlobs e cfg @ pagesFromSrc (sc_pages cfg))
                 \<lparr>ownProperties = [], prototypeObject = None\<rparr>)"
    and "distinct (map src (pagesFromSrc (sc_pages cfg)))"
  using assms
  by (simp_all add: collectAddressablePages_def Let_def duplicatePages_Nil_iff split: if_splits)

lemma collect_stored:
  assumes c: "collectAddressablePages e cfg = Inr aps" and r: "r \<in> set aps"
  obtains k where "r ''src'' = Some (Str k)" "k \<noteq> ''__proto__''"
    "map_of (ownProperties (fold setPage (pagesFromGlobs e cfg @ pagesFromSrc (sc_pages cfg))
        \<lparr>ownProperties = [], prototypeObject = None\<rparr>)) k = Some r"
proof -
  let ?obj = "fold setPage (pagesFromGlobs e cfg @ pagesFromSrc (sc_pages cfg))
        \<lparr>ownProperties = [], prototypeObject = None\<rparr>"
  have w: "wellKeyed ?obj" by (rule fold_setPage_wellKeyed [OF wellKeyed_empty])
  from collect_result(1) [OF c] r have "r \<in> snd ` set (ownProperties ?obj)"
    by (simp add: objectValues_set)
  then obtain k where k: "(k, r) \<in> set (ownProperties ?obj)" by auto
  from w k have 1: "r ''src'' = Some (Str k)"
    by (auto simp: wellKeyed_def list_all_iff)
  from w k have 2: "k \<noteq> ''__proto__''"
    by (auto simp: wellKeyed_def image_iff)
  from w have "distinct (map fst (ownProperties ?obj))" by (simp add: wellKeyed_def)
  with k have 3: "map_of (ownProperties ?obj) k = Some r" by simp
  from 1 2 3 that show thesis by blast
qed

lemma collect_later_wins:
  assumes c: "collectAddressablePages e cfg = Inr aps" and r: "r \<in> set aps"
    and i: "i < length (pagesFromGlobs e cfg @ pagesFromSrc (sc_pages cfg))"
    and k: "r ''src'' = Some (Str (src ((pagesFromGlobs e cfg @ pagesFromSrc (sc_pages cfg)) ! i)))"
    and v: "omitUndefined ((pagesFromGlobs e cfg @ pagesFromSrc (sc_pages cfg)) ! i) q = Some v"
    and later: "\<forall>j. i < j \<and> j < length (pagesFromGlobs e cfg @ pagesFromSrc (sc_pages cfg))
          \<and> src ((pagesFromGlobs e cfg @ pagesFromSrc (sc_pages cfg)) ! j)
              = src ((pagesFromGlobs e cfg @ pagesFromSrc (sc_pages cfg)) ! i)
        \<longrightarrow> omitUndefined ((pagesFromGlobs e cfg @ pagesFromSrc (sc_pages cfg)) ! j) q = None"
  shows "r q = Some v"
proof -
  let ?ps = "pagesFromGlobs e cfg @ pagesFromSrc (sc_pages cfg)"
  let ?obj = "fold setPage ?ps \<lparr>ownProperties = [], prototypeObject = None\<rparr>"
  from collect_stored [OF c r] obtain k' where k': "r ''src'' = Some (Str k')"
    "k' \<noteq> ''__proto__''" "map_of (ownProperties ?obj) k' = Some r" by blast
  from k k'(1) have eq: "k' = src (?ps ! i)" by simp
  with k'(2) have np: "src (?ps ! i) \<noteq> ''__proto__''" by simp
  from fold_setPage_later_wins [OF wellKeyed_empty i np v later]
  obtain r' where "map_of (ownProperties ?obj) (src (?ps ! i)) = Some r'" "r' q = Some v"
    by blast
  with k'(3) eq show ?thesis by simp
qed

lemma collect_explicit_wins:
  assumes c: "collectAddressablePages e cfg = Inr aps" and r: "r \<in> set aps"
    and x: "x \<in> set (pagesFromSrc (sc_pages cfg))" and k: "r ''src'' = Some (Str (src x))"
    and v: "omitUndefined x q = Some v"
  shows "r q = Some v"
proof -
  let ?gs = "pagesFromGlobs e cfg"
  let ?xs = "pagesFromSrc (sc_pages cfg)"
  from x obtain m where m: "m < length ?xs" "?xs ! m = x" by (auto simp: in_set_conv_nth)
  let ?i = "length ?gs + m"
  have at: "(?gs @ ?xs) ! ?i = x" using m by (simp add: nth_append)
  have i: "?i < length (?gs @ ?xs)" using m by simp
  have d: "distinct (map src ?xs)" by (rule collect_result(2) [OF c])
  have later: "\<forall>j. ?i < j \<and> j < length (?gs @ ?xs) \<and> src ((?gs @ ?xs) ! j) = src ((?gs @ ?xs) ! ?i)
        \<longrightarrow> omitUndefined ((?gs @ ?xs) ! j) q = None"
  proof (intro allI impI)
    fix j assume j: "?i < j \<and> j < length (?gs @ ?xs) \<and> src ((?gs @ ?xs) ! j) = src ((?gs @ ?xs) ! ?i)"
    let ?n = "j - length ?gs"
    from j have n: "?n < length ?xs" "m < ?n" by auto
    from j have "(?gs @ ?xs) ! j = ?xs ! ?n" by (simp add: nth_append)
    with j at m have "src (?xs ! ?n) = src (?xs ! m)" by simp
    then have eq: "map src ?xs ! ?n = map src ?xs ! m" using n m by simp
    have ln: "?n < length (map src ?xs)" "m < length (map src ?xs)" using n m by simp_all
    from nth_eq_iff_index_eq [OF d ln] eq have "?n = m" by blast
    with n show "omitUndefined ((?gs @ ?xs) ! j) q = None" by simp
  qed
  from k at have k': "r ''src'' = Some (Str (src ((?gs @ ?xs) ! ?i)))" by simp
  from v at have v': "omitUndefined ((?gs @ ?xs) ! ?i) q = Some v" by simp
  show ?thesis by (rule collect_later_wins [OF c r i k' v' later])
qed

lemmas collect_eval =
  collectAddressablePages_def pagesFromSrc_def hasSrc_def splitSrc_def withSrc_def
  duplicatePages_def pagesFromGlobs_def getPageGlobPaths_def hasGlob_def setPage_def
  assignProperty_def hasProperty_def spreadProperty_def objectValues_def omitUndefined_def
  objectPrototypeKeys_def arrayIndex_def decimalValue_def digitValue_def uniq_def entry_def
  map_add_def Let_def

text \<open>
  C5. Resolution fails exactly when two entries of \<^verbatim>\<open>pagesFromSrc\<close> (the explicit entries,
  a list of paths split into one entry per path) carry the same path; the error message
  lists every path that occurs twice or more, each once, so each of them can be read in
  the message. When resolution succeeds, no two pages of the result carry the same
  \<^verbatim>\<open>src\<close>, and the paths of the result are the paths of the glob-derived and explicit
  entries, except the path \<^verbatim>\<open>__proto__\<close>, which never gets a page.
\<close>

theorem collectAddressablePages_duplicate_sources:
  "(isl (collectAddressablePages e cfg) \<longleftrightarrow> \<not> distinct (map src (pagesFromSrc (sc_pages cfg))))
   \<and> (\<forall>msg. collectAddressablePages e cfg = Inl msg \<longrightarrow>
         (\<exists>ds. msg = ''Duplicate page entries found in site config: '' @ join '', '' ds
            \<and> distinct ds
            \<and> set ds = {x. 2 \<le> count_list (map src (pagesFromSrc (sc_pages cfg))) x})
         \<and> (\<forall>x. 2 \<le> count_list (map src (pagesFromSrc (sc_pages cfg))) x \<longrightarrow>
               (\<exists>u v. msg = ''Duplicate page entries found in site config: '' @ u @ x @ v)))
   \<and> (\<forall>aps. collectAddressablePages e cfg = Inr aps \<longrightarrow>
         distinct (map (\<lambda>r. r ''src'') aps)
         \<and> set (map (\<lambda>r. r ''src'') aps)
            = (\<lambda>k. Some (Str k))
                ` (set (map src (pagesFromGlobs e cfg @ pagesFromSrc (sc_pages cfg))) - {''__proto__''}))"
proof (intro conjI allI impI)
  show "isl (collectAddressablePages e cfg) \<longleftrightarrow> \<not> distinct (map src (pagesFromSrc (sc_pages cfg)))"
    by (simp add: collectAddressablePages_def Let_def duplicatePages_Nil_iff)
next
  fix msg
  assume "collectAddressablePages e cfg = Inl msg"
  then have msg: "msg = ''Duplicate page entries found in site config: ''
      @ join '', '' (uniq (duplicatePages (pagesFromSrc (sc_pages cfg))))"
    by (simp add: collectAddressablePages_def Let_def split: if_splits)
  note u = uniq_duplicatePages [of "pagesFromSrc (sc_pages cfg)"]
  from msg u
  show "\<exists>ds. msg = ''Duplicate page entries found in site config: '' @ join '', '' ds
            \<and> distinct ds
            \<and> set ds = {x. 2 \<le> count_list (map src (pagesFromSrc (sc_pages cfg))) x}"
    by blast
  fix x
  assume "2 \<le> count_list (map src (pagesFromSrc (sc_pages cfg))) x"
  with u have "x \<in> set (uniq (duplicatePages (pagesFromSrc (sc_pages cfg))))" by simp
  from join_names [OF this, of "'', ''"] msg
  show "\<exists>u v. msg = ''Duplicate page entries found in site config: '' @ u @ x @ v"
    by auto
next
  fix aps
  assume c: "collectAddressablePages e cfg = Inr aps"
  let ?ps = "pagesFromGlobs e cfg @ pagesFromSrc (sc_pages cfg)"
  let ?obj = "fold setPage ?ps \<lparr>ownProperties = [], prototypeObject = None\<rparr>"
  have w: "wellKeyed ?obj" by (rule fold_setPage_wellKeyed [OF wellKeyed_empty])
  have aps: "aps = objectValues ?obj" by (rule collect_result(1) [OF c])
  show "distinct (map (\<lambda>r. r ''src'') aps)"
    unfolding aps by (rule objectValues_src_distinct [OF w])
  have "fst ` set (ownProperties ?obj) = set (map src ?ps) - {''__proto__''}"
    using fold_setPage_keys [OF wellKeyed_empty, of ?ps] by (simp add: image_Un)
  then show "set (map (\<lambda>r. r ''src'') aps)
            = (\<lambda>k. Some (Str k)) ` (set (map src ?ps) - {''__proto__''})"
    unfolding aps objectValues_src_set [OF w] by (rule arg_cong)
qed

theorem collectAddressablePages_duplicate_sources_witness:
  "collectAddressablePages exampleEnv exampleDuplicateConfig
     = Inl ''Duplicate page entries found in site config: a.md, c.md''
   \<and> \<not> distinct (map src (pagesFromSrc (sc_pages exampleDuplicateConfig)))
   \<and> map (\<lambda>r. r ''src'') (projr (collectAddressablePages exampleEnv exampleConfig))
       = [Some (Str ''a.md''), Some (Str ''b.md'')]
   \<and> distinct (map src (pagesFromSrc (sc_pages exampleConfig)))"
  using collectAddressablePages_duplicate_sources [of exampleEnv exampleDuplicateConfig]
    collectAddressablePages_duplicate_sources [of exampleEnv exampleConfig]
  by (simp add: collect_eval exampleEnv_def exampleDuplicateConfig_def exampleConfig_def)

text \<open>
  C5 on a configuration with the explicit pages \<^verbatim>\<open>__proto__\<close> and \<^verbatim>\<open>a.md\<close>: there is no
  duplicate and resolution succeeds, but the result holds one page only. The assignment
  \<^verbatim>\<open>filteredPages[page.src] = ...\<close> with the key \<^verbatim>\<open>__proto__\<close> sets the prototype of the
  dictionary and stores nothing.
\<close>

theorem collectAddressablePages_proto_counterexample:
  "distinct (map src (pagesFromSrc (sc_pages exampleProtoConfig)))
   \<and> map src (pagesFromGlobs exampleEnv exampleProtoConfig @ pagesFromSrc (sc_pages exampleProtoConfig))
       = [''__proto__'', ''a.md'']
   \<and> \<not> isl (collectAddressablePages exampleEnv exampleProtoConfig)
   \<and> map (\<lambda>r. r ''src'') (projr (collectAddressablePages exampleEnv exampleProtoConfig))
       = [Some (Str ''a.md'')]"
  by (simp add: collect_eval exampleEnv_def exampleProtoConfig_def)

text \<open>
  The order of the result is the order of \<^verbatim>\<open>Object.values\<close>: pages whose path is an array
  index come first, in numeric order, whatever the order of the entries.
\<close>

theorem collectAddressablePages_numeric_keys_first:
  "map src (pagesFromGlobs exampleEnv exampleNumericConfig @ pagesFromSrc (sc_pages exampleNumericConfig))
       = [''b.md'', ''10'', ''9'']
   \<and> map (\<lambda>r. r ''src'') (projr (collectAddressablePages exampleEnv exampleNumericConfig))
       = [Some (Str ''9''), Some (Str ''10''), Some (Str ''b.md'')]"
  by (simp add: collect_eval exampleEnv_def exampleNumericConfig_def)

text \<open>
  Once a page with the path \<^verbatim>\<open>__proto__\<close> has become the prototype of the dictionary, the
  names of its properties are found by \<^verbatim>\<open>page.src in filteredPages\<close>: a later page whose path
  is \<^verbatim>\<open>title\<close> is merged with the spread of the inherited title, the string \<^verbatim>\<open>P\<close>, and gets
  a property \<^verbatim>\<open>0\<close>; a page with another path inherits nothing.
\<close>

theorem collectAddressablePages_reads_prototype:
  "map (\<lambda>r. r ''src'') (projr (collectAddressablePages exampleEnv exampleInheritConfig))
       = [Some (Str ''a.md''), Some (Str ''title'')]
   \<and> map (\<lambda>r. r ''0'') (projr (collectAddressablePages exampleEnv exampleInheritConfig))
       = [None, Some (Str ''P'')]
   \<and> map (\<lambda>r. r ''title'') (projr (collectAddressablePages exampleEnv exampleInheritConfig))
       = [Some (Str ''A''), None]"
  by (simp add: collect_eval elementAt_def exampleEnv_def exampleInheritConfig_def)

text \<open>
  C6. In a successful resolution, take a page of the result. Every property that the
  explicit entry of its path defines has, in the page, the value that entry gives, wherever
  the entry stands in the configuration and whatever the glob-derived entries of the path
  give. In general, entries being processed glob-derived first and explicit after them,
  each group in declaration order: a value that an entry of the path gives to a property
  is the value the page has, unless a later processed entry of the same path defines that
  property too.
\<close>

theorem collectAddressablePages_merge_priority:
  assumes "collectAddressablePages e cfg = Inr aps" and "r \<in> set aps"
  shows "(\<forall>x \<in> set (pagesFromSrc (sc_pages cfg)). r ''src'' = Some (Str (src x)) \<longrightarrow>
            (\<forall>v. title x = Some v \<longrightarrow> r ''title'' = Some (Str v))
          \<and> (\<forall>v. layout x = Some v \<longrightarrow> r ''layout'' = Some (Str v))
          \<and> (\<forall>v. searchable x = Some v \<longrightarrow> r ''searchable'' = Some (Str v))
          \<and> (\<forall>v. frontmatter x = Some v \<longrightarrow> r ''frontmatter'' = Some (Obj v))
          \<and> (\<forall>v. externalScripts x = Some v \<longrightarrow> r ''externalScripts'' = Some (Arr v)))
     \<and> (\<forall>i q v. i < length (pagesFromGlobs e cfg @ pagesFromSrc (sc_pages cfg))
            \<and> r ''src'' = Some (Str (src ((pagesFromGlobs e cfg @ pagesFromSrc (sc_pages cfg)) ! i)))
            \<and> omitUndefined ((pagesFromGlobs e cfg @ pagesFromSrc (sc_pages cfg)) ! i) q = Some v
            \<and> (\<forall>j. i < j \<and> j < length (pagesFromGlobs e cfg @ pagesFromSrc (sc_pages cfg))
                  \<and> src ((pagesFromGlobs e cfg @ pagesFromSrc (sc_pages cfg)) ! j)
                      = src ((pagesFromGlobs e cfg @ pagesFromSrc (sc_pages cfg)) ! i)
                 \<longrightarrow> omitUndefined ((pagesFromGlobs e cfg @ pagesFromSrc (sc_pages cfg)) ! j) q = None)
          \<longrightarrow> r q = Some v)"
proof (intro conjI ballI allI impI)
  note c = assms(1) and r = assms(2)
  fix x v
  assume x: "x \<in> set (pagesFromSrc (sc_pages cfg))" and k: "r ''src'' = Some (Str (src x))"
  note wins = collect_explicit_wins [OF c r x k]
  {
    assume "title x = Some v"
    then have "omitUndefined x ''title'' = Some (Str v)" by (simp add: omitUndefined_def)
    then show "r ''title'' = Some (Str v)" by (rule wins)
  }
  {
    assume "layout x = Some v"
    then have "omitUndefined x ''layout'' = Some (Str v)" by (simp add: omitUndefined_def)
    then show "r ''layout'' = Some (Str v)" by (rule wins)
  }
  {
    assume "searchable x = Some v"
    then have "omitUndefined x ''searchable'' = Some (Str v)" by (simp add: omitUndefined_def)
    then show "r ''searchable'' = Some (Str v)" by (rule wins)
  }
next
  note c = assms(1) and r = assms(2)
  fix x v
  assume x: "x \<in> set (pagesFromSrc (sc_pages cfg))" and k: "r ''src'' = Some (Str (src x))"
  assume "frontmatter x = Some v"
  then have "omitUndefined x ''frontmatter'' = Some (Obj v)" by (simp add: omitUndefined_def)
  then show "r ''frontmatter'' = Some (Obj v)" by (rule collect_explicit_wins [OF c r x k])
next
  note c = assms(1) and r = assms(2)
  fix x v
  assume x: "x \<in> set (pagesFromSrc (sc_pages cfg))" and k: "r ''src'' = Some (Str (src x))"
  assume "externalScripts x = Some v"
  then have "omitUndefined x ''externalScripts'' = Some (Arr v)" by (simp add: omitUndefined_def)
  then show "r ''externalScripts'' = Some (Arr v)" by (rule collect_explicit_wins [OF c r x k])
next
  fix i q v
  assume a: "i < length (pagesFromGlobs e cfg @ pagesFromSrc (sc_pages cfg))
            \<and> r ''src'' = Some (Str (src ((pagesFromGlobs e cfg @ pagesFromSrc (sc_pages cfg)) ! i)))
            \<and> omitUndefined ((pagesFromGlobs e cfg @ pagesFromSrc (sc_pages cfg)) ! i) q = Some v
            \<and> (\<forall>j. i < j \<and> j < length (pagesFromGlobs e cfg @ pagesFromSrc (sc_pages cfg))
                  \<and> src ((pagesFromGlobs e cfg @ pagesFromSrc (sc_pages cfg)) ! j)
                      = src ((pagesFromGlobs e cfg @ pagesFromSrc (sc_pages cfg)) ! i)
                 \<longrightarrow> omitUndefined ((pagesFromGlobs e cfg @ pagesFromSrc (sc_pages cfg)) ! j) q = None)"
  show "r q = Some v"
    by (rule collect_later_wins [OF assms(1) assms(2)]) (use a in blast)+
qed

theorem collectAddressablePages_merge_priority_witness:
  "collectAddressablePages exampleEnv exampleConfig
     = Inr (projr (collectAddressablePages exampleEnv exampleConfig))
   \<and> hd (projr (collectAddressablePages exampleEnv exampleConfig))
       \<in> set (projr (collectAddressablePages exampleEnv exampleConfig))
   \<and> map src (pagesFromSrc (sc_pages exampleConfig)) = [''a.md'']
   \<and> map layout (pagesFromSrc (sc_pages exampleConfig)) = [Some ''own'']
   \<and> map src (pagesFromGlobs exampleEnv exampleConfig) = [''a.md'', ''b.md'', ''a.md'', ''b.md'']
   \<and> map layout (pagesFromGlobs exampleEnv exampleConfig)
       = [Some ''first'', Some ''first'', Some ''second'', Some ''second'']
   \<and> map searchable (pagesFromGlobs exampleEnv exampleConfig) = [Some ''no'', Some ''no'', None, None]
   \<and> hd (projr (collectAddressablePages exampleEnv exampleConfig)) ''src'' = Some (Str ''a.md'')
   \<and> hd (projr (collectAddressablePages exampleEnv exampleConfig)) ''layout'' = Some (Str ''own'')
   \<and> map (\<lambda>r. r ''src'') (projr (collectAddressablePages exampleEnv exampleConfig))
       = [Some (Str ''a.md''), Some (Str ''b.md'')]
   \<and> map (\<lambda>r. r ''layout'') (projr (collectAddressablePages exampleEnv exampleConfig))
       = [Some (Str ''own''), Some (Str ''second'')]
   \<and> map (\<lambda>r. r ''searchable'') (projr (collectAddressablePages exampleEnv exampleConfig))
       = [Some (Str ''no''), Some (Str ''no'')]
   \<and> map (\<lambda>r. r ''title'') (projr (collectAddressablePages exampleEnv exampleConfig))
       = [Some (Str ''A''), None]"
proof -
  let ?aps = "projr (collectAddressablePages exampleEnv exampleConfig)"
  let ?x = "withSrc ''a.md'' (entry (Some (SrcOne ''a.md'')) None (Some ''A'') (Some ''own''))"
  have c: "collectAddressablePages exampleEnv exampleConfig = Inr ?aps"
    by (simp add: collectAddressablePages_def pagesFromSrc_def hasSrc_def splitSrc_def withSrc_def
        duplicatePages_def entry_def exampleConfig_def Let_def)
  have s: "map (\<lambda>r. r ''src'') ?aps = [Some (Str ''a.md''), Some (Str ''b.md'')]"
    by (simp add: collect_eval exampleEnv_def exampleConfig_def)
  then have ne: "?aps \<noteq> []" by auto
  then have a: "hd ?aps \<in> set ?aps" by simp
  from s ne have k: "hd ?aps ''src'' = Some (Str ''a.md'')"
    by (cases ?aps) simp_all
  have x: "?x \<in> set (pagesFromSrc (sc_pages exampleConfig))"
    by (simp add: pagesFromSrc_def hasSrc_def splitSrc_def entry_def exampleConfig_def)
  have kx: "hd ?aps ''src'' = Some (Str (src ?x))"
    using k by (simp add: withSrc_def)
  have lx: "layout ?x = Some ''own''"
    by (simp add: withSrc_def entry_def)
  from collectAddressablePages_merge_priority [OF c a, THEN conjunct1, rule_format, OF x kx,
      THEN conjunct2, THEN conjunct1, rule_format, OF lx]
  have won: "hd ?aps ''layout'' = Some (Str ''own'')" .
  have rest: "map src (pagesFromSrc (sc_pages exampleConfig)) = [''a.md'']"
    "map layout (pagesFromSrc (sc_pages exampleConfig)) = [Some ''own'']"
    "map src (pagesFromGlobs exampleEnv exampleConfig) = [''a.md'', ''b.md'', ''a.md'', ''b.md'']"
    "map layout (pagesFromGlobs exampleEnv exampleConfig)
       = [Some ''first'', Some ''first'', Some ''second'', Some ''second'']"
    "map searchable (pagesFromGlobs exampleEnv exampleConfig) = [Some ''no'', Some ''no'', None, None]"
    by (simp_all add: pagesFromSrc_def hasSrc_def splitSrc_def withSrc_def pagesFromGlobs_def
        getPageGlobPaths_def hasGlob_def entry_def exampleEnv_def exampleConfig_def)
  have vals: "map (\<lambda>r. r ''layout'') ?aps = [Some (Str ''own''), Some (Str ''second'')]"
    "map (\<lambda>r. r ''searchable'') ?aps = [Some (Str ''no''), Some (Str ''no'')]"
    "map (\<lambda>r. r ''title'') ?aps = [Some (Str ''A''), None]"
    by (simp_all add: collect_eval exampleEnv_def exampleConfig_def)
  from c a rest k won s vals show ?thesis by (intro conjI)
qed

section \<open>regenerateAffectedPages: the affected pages\<close>

lemma findIndex_Some:
  "findIndex P xs = Some i \<Longrightarrow> i < length xs \<and> P (xs ! i)"
proof (induction xs arbitrary: i)
  case Nil
  then show ?case by simp
next
  case (Cons x xs)
  then show ?case by (cases "P x") auto
qed

lemma findIndex_None: "findIndex P xs = None \<longleftrightarrow> (\<forall>x \<in> set xs. \<not> P x)"
  by (induction xs) auto

lemma fold_affectedStep_eager:
  "\<not> lazyMode s \<Longrightarrow>
   fold (affectedStep e s fps all) ps (pending, opened, kept)
     = (pending, opened, kept @ filter (isAffected e fps all) ps)"
  by (induction ps arbitrary: kept) (simp_all add: affectedStep_def)

lemma affectedStep_lazy:
  "lazyMode s \<Longrightarrow>
   affectedStep e s fps all p (pending, opened, kept) =
     (if isAffected e fps all p
      then (case openIndex e s p of
              None \<Rightarrow> (insert (normalizedUrl e p) pending, opened, kept)
            | Some j \<Rightarrow> (pending, opened[j := Some p], kept))
      else (pending, opened, kept))"
  by (simp add: affectedStep_def openIndex_def Let_def)

lemma fold_affectedStep_lazy:
  assumes "lazyMode s"
  shows "fold (affectedStep e s fps all) ps (pending, opened, kept)
     = (pending \<union> {normalizedUrl e p | p. p \<in> set ps \<and> isAffected e fps all p \<and> openIndex e s p = None},
        map (\<lambda>i. lastOr (opened ! i)
               (filter (\<lambda>p. isAffected e fps all p \<and> openIndex e s p = Some i) ps))
          [0..<length opened],
        kept)"
proof (induction ps rule: rev_induct)
  case Nil
  show ?case by (simp add: lastOr_def map_nth)
next
  case (snoc p ps)
  let ?pending' = "pending \<union> {normalizedUrl e p | p. p \<in> set ps \<and> isAffected e fps all p \<and> openIndex e s p = None}"
  let ?opened' = "map (\<lambda>i. lastOr (opened ! i)
               (filter (\<lambda>p. isAffected e fps all p \<and> openIndex e s p = Some i) ps))
          [0..<length opened]"
  have step: "fold (affectedStep e s fps all) (ps @ [p]) (pending, opened, kept)
      = affectedStep e s fps all p (?pending', ?opened', kept)"
    using snoc by simp
  show ?case
  proof (cases "isAffected e fps all p")
    case False
    have "?opened' = map (\<lambda>i. lastOr (opened ! i)
               (filter (\<lambda>p. isAffected e fps all p \<and> openIndex e s p = Some i) (ps @ [p])))
          [0..<length opened]"
      using False by simp
    moreover have "?pending' =
       pending \<union> {normalizedUrl e q | q. q \<in> set (ps @ [p]) \<and> isAffected e fps all q \<and> openIndex e s q = None}"
      using False by auto
    ultimately show ?thesis
      unfolding step affectedStep_lazy [OF assms] using False by simp
  next
    case True
    show ?thesis
    proof (cases "openIndex e s p")
      case None
      have "?opened' = map (\<lambda>i. lastOr (opened ! i)
               (filter (\<lambda>p. isAffected e fps all p \<and> openIndex e s p = Some i) (ps @ [p])))
          [0..<length opened]"
        using None by simp
      moreover have "insert (normalizedUrl e p) ?pending' =
         pending \<union> {normalizedUrl e q | q. q \<in> set (ps @ [p]) \<and> isAffected e fps all q \<and> openIndex e s q = None}"
        using None True by auto
      ultimately show ?thesis
        unfolding step affectedStep_lazy [OF assms] using True None by simp
    next
      case (Some j)
      have upd: "?opened'[j := Some p]
         = map (\<lambda>i. lastOr (opened ! i)
               (filter (\<lambda>p. isAffected e fps all p \<and> openIndex e s p = Some i) (ps @ [p])))
          [0..<length opened]"
        by (rule nth_equalityI) (auto simp: nth_list_update lastOr_def True Some)
      have "?pending' =
         pending \<union> {normalizedUrl e q | q. q \<in> set (ps @ [p]) \<and> isAffected e fps all q \<and> openIndex e s q = None}"
        using Some by auto
      with upd show ?thesis
        unfolding step affectedStep_lazy [OF assms] using True Some by simp
    qed
  qed
qed


lemma openIndex_Some:
  "openIndex e s p = Some i \<Longrightarrow>
     i < length (currentOpenedPages s) \<and> currentOpenedPages s ! i = normalizedUrl e p"
  unfolding openIndex_def by (drule findIndex_Some) simp

lemma openIndex_None: "openIndex e s p = None \<longleftrightarrow> normalizedUrl e p \<notin> set (currentOpenedPages s)"
  unfolding openIndex_def findIndex_None by auto

lemma set_map_filter_id: "set (List.map_filter (\<lambda>x. x) xs) = {q. Some q \<in> set xs}"
  by (induction xs) (auto split: option.splits)

lemma lastOr_None_Some:
  "lastOr None qs = Some q \<longleftrightarrow> qs \<noteq> [] \<and> q = last qs"
  by (auto simp: lastOr_def)

lemma affectedPages_lazy:
  assumes lz: "lazyMode s" and ap: "affectedPages e fps s = (s', opened, async)"
  defines "all \<equiv> collectUserDefinedVariablesMapIfNeeded e fps \<or> forceReload s"
  shows "async = []"
    and "toRebuild s' = toRebuild s \<union>
          {normalizedUrl e p | p. p \<in> set (pages s) \<and> isAffected e fps all p
              \<and> normalizedUrl e p \<notin> set (currentOpenedPages s)}"
    and "set opened = {q. \<exists>i < length (currentOpenedPages s).
            filter (\<lambda>p. isAffected e fps all p \<and> openIndex e s p = Some i) (pages s) \<noteq> []
          \<and> q = last (filter (\<lambda>p. isAffected e fps all p \<and> openIndex e s p = Some i) (pages s))}"
proof -
  let ?n = "length (currentOpenedPages s)"
  have f: "fold (affectedStep e s fps all) (pages s) (toRebuild s, replicate ?n None, [])
     = (toRebuild s \<union> {normalizedUrl e p | p. p \<in> set (pages s) \<and> isAffected e fps all p \<and> openIndex e s p = None},
        map (\<lambda>i. lastOr None
               (filter (\<lambda>p. isAffected e fps all p \<and> openIndex e s p = Some i) (pages s)))
          [0..<?n],
        [])"
    unfolding fold_affectedStep_lazy [OF lz] by simp
  from ap have s': "s' = s\<lparr>toRebuild := toRebuild s \<union> {normalizedUrl e p | p. p \<in> set (pages s) \<and> isAffected e fps all p \<and> openIndex e s p = None}\<rparr>"
    and op: "opened = List.map_filter (\<lambda>x. x) (map (\<lambda>i. lastOr None
               (filter (\<lambda>p. isAffected e fps all p \<and> openIndex e s p = Some i) (pages s)))
          [0..<?n])"
    and as: "async = []"
    unfolding affectedPages_def Let_def all_def [symmetric] f by simp_all
  show "async = []" by (rule as)
  show "toRebuild s' = toRebuild s \<union>
          {normalizedUrl e p | p. p \<in> set (pages s) \<and> isAffected e fps all p
              \<and> normalizedUrl e p \<notin> set (currentOpenedPages s)}"
    unfolding s' by (simp add: openIndex_None)
  show "set opened = {q. \<exists>i < ?n.
            filter (\<lambda>p. isAffected e fps all p \<and> openIndex e s p = Some i) (pages s) \<noteq> []
          \<and> q = last (filter (\<lambda>p. isAffected e fps all p \<and> openIndex e s p = Some i) (pages s))}"
  proof -
    have "Some q \<in> set (map F [0..<?n]) \<longleftrightarrow> (\<exists>i<?n. F i = Some q)"
      for F :: "nat \<Rightarrow> page option" and q
    proof
      assume "Some q \<in> set (map F [0..<?n])"
      then obtain i where "i \<in> set [0..<?n]" "Some q = F i" by auto
      then show "\<exists>i<?n. F i = Some q" by auto
    next
      assume "\<exists>i<?n. F i = Some q"
      then obtain i where "i < ?n" "F i = Some q" by blast
      then have "Some q = F i" "i \<in> set [0..<?n]" by simp_all
      then show "Some q \<in> set (map F [0..<?n])"
        unfolding set_map by (rule image_eqI)
    qed
    then show ?thesis
      unfolding op set_map_filter_id by (simp only: lastOr_None_Some)
  qed
qed


lemma affectedPages_eager:
  assumes lz: "\<not> lazyMode s" and ap: "affectedPages e fps s = (s', opened, async)"
  shows "async = filter (isAffected e fps (collectUserDefinedVariablesMapIfNeeded e fps \<or> forceReload s)) (pages s)
       \<and> opened = [] \<and> toRebuild s' = toRebuild s"
proof -
  have "List.map_filter (\<lambda>x. x) (replicate n (None :: page option)) = []" for n
    by (induction n) simp_all
  with ap show ?thesis
    unfolding affectedPages_def Let_def fold_affectedStep_eager [OF lz] by auto
qed


text \<open>
  C7. With \<open>all\<close> the value of \<^verbatim>\<open>shouldRebuildAllPages\<close> (the variables file is among the
  changed paths, or \<^verbatim>\<open>forceReload\<close> is set): when \<open>all\<close> holds every page counts as
  affected whatever its dependency predicate says, otherwise exactly the pages with a
  changed dependency. Outside lazy mode the affected pages are the pages of the
  concurrent task. In lazy mode an affected page whose key is not among the opened pages
  has its key added to \<^verbatim>\<open>toRebuild\<close>, and for an affected page whose key is opened a page
  of that key is in the sequential task (the page itself when no two pages share a key).
\<close>

theorem regenerateAffectedPages_affected:
  assumes ap: "affectedPages e fps s = (s', opened, async)"
    and all: "all = (variablesPath e \<in> set fps \<or> forceReload s)"
  shows "(all \<longrightarrow> (\<forall>p. isAffected e fps all p))
     \<and> (\<not> all \<longrightarrow> (\<forall>p. isAffected e fps all p = (\<exists>f \<in> set fps. isDependency e p f)))
     \<and> (\<not> lazyMode s \<longrightarrow>
          async = filter (isAffected e fps all) (pages s) \<and> opened = [] \<and> toRebuild s' = toRebuild s)
     \<and> (lazyMode s \<longrightarrow>
          async = []
        \<and> toRebuild s' = toRebuild s \<union>
            {normalizedUrl e p | p. p \<in> set (pages s) \<and> isAffected e fps all p
               \<and> normalizedUrl e p \<notin> set (currentOpenedPages s)}
        \<and> set opened \<subseteq> {p \<in> set (pages s). isAffected e fps all p
               \<and> normalizedUrl e p \<in> set (currentOpenedPages s)}
        \<and> (\<forall>p \<in> set (pages s). isAffected e fps all p
               \<and> normalizedUrl e p \<in> set (currentOpenedPages s)
             \<longrightarrow> (\<exists>q \<in> set opened. normalizedUrl e q = normalizedUrl e p))
        \<and> (distinct (map (normalizedUrl e) (pages s)) \<longrightarrow>
             set opened = {p \<in> set (pages s). isAffected e fps all p
               \<and> normalizedUrl e p \<in> set (currentOpenedPages s)}))"
proof (intro conjI impI)
  assume all
  then show "\<forall>p. isAffected e fps all p" by (simp add: isAffected_def)
next
  assume "\<not> all"
  then show "\<forall>p. isAffected e fps all p = (\<exists>f \<in> set fps. isDependency e p f)"
    by (simp add: isAffected_def list_ex_iff)
next
  assume "\<not> lazyMode s"
  from affectedPages_eager [OF this ap]
  show "async = filter (isAffected e fps all) (pages s)" "opened = []" "toRebuild s' = toRebuild s"
    by (simp_all add: all collectUserDefinedVariablesMapIfNeeded_def)
next
  assume lz: "lazyMode s"
  have all': "all = (collectUserDefinedVariablesMapIfNeeded e fps \<or> forceReload s)"
    by (simp add: all collectUserDefinedVariablesMapIfNeeded_def)
  note L = affectedPages_lazy [OF lz ap, folded all']
  let ?sel = "\<lambda>i. filter (\<lambda>p. isAffected e fps all p \<and> openIndex e s p = Some i) (pages s)"
  have sel_last: "last (?sel i) \<in> set (pages s) \<and> isAffected e fps all (last (?sel i))
      \<and> openIndex e s (last (?sel i)) = Some i" if "?sel i \<noteq> []" for i
    using last_in_set [OF that] by auto
  show "async = []" by (rule L(1))
  show "toRebuild s' = toRebuild s \<union>
            {normalizedUrl e p | p. p \<in> set (pages s) \<and> isAffected e fps all p
               \<and> normalizedUrl e p \<notin> set (currentOpenedPages s)}"
    by (rule L(2))
  show sub: "set opened \<subseteq> {p \<in> set (pages s). isAffected e fps all p
               \<and> normalizedUrl e p \<in> set (currentOpenedPages s)}"
  proof
    fix q assume "q \<in> set opened"
    then obtain i where i: "i < length (currentOpenedPages s)" "?sel i \<noteq> []" "q = last (?sel i)"
      unfolding L(3) by blast
    from sel_last [OF i(2)] i(3) openIndex_Some [of e s q i]
    show "q \<in> {p \<in> set (pages s). isAffected e fps all p
               \<and> normalizedUrl e p \<in> set (currentOpenedPages s)}"
      by (auto simp: in_set_conv_nth)
  qed
  have rep: "\<exists>q \<in> set opened. normalizedUrl e q = normalizedUrl e p \<and> q \<in> set (pages s)"
    if p: "p \<in> set (pages s)" "isAffected e fps all p"
      "normalizedUrl e p \<in> set (currentOpenedPages s)" for p
  proof -
    from p(3) obtain i where i: "openIndex e s p = Some i"
      using openIndex_None [of e s p] by (cases "openIndex e s p") auto
    with p have ne: "?sel i \<noteq> []" by (auto simp: filter_empty_conv)
    from openIndex_Some [OF i] have il: "i < length (currentOpenedPages s)"
      and ki: "currentOpenedPages s ! i = normalizedUrl e p" by simp_all
    from ne il have "last (?sel i) \<in> set opened" unfolding L(3) by blast
    moreover from sel_last [OF ne] openIndex_Some [of e s "last (?sel i)" i] ki
    have "normalizedUrl e (last (?sel i)) = normalizedUrl e p" "last (?sel i) \<in> set (pages s)"
      by simp_all
    ultimately show ?thesis by blast
  qed
  show "\<forall>p \<in> set (pages s). isAffected e fps all p
               \<and> normalizedUrl e p \<in> set (currentOpenedPages s)
             \<longrightarrow> (\<exists>q \<in> set opened. normalizedUrl e q = normalizedUrl e p)"
    using rep by blast
  show "set opened = {p \<in> set (pages s). isAffected e fps all p
               \<and> normalizedUrl e p \<in> set (currentOpenedPages s)}"
    if d: "distinct (map (normalizedUrl e) (pages s))"
  proof
    show "set opened \<subseteq> {p \<in> set (pages s). isAffected e fps all p
               \<and> normalizedUrl e p \<in> set (currentOpenedPages s)}" by (rule sub)
    show "{p \<in> set (pages s). isAffected e fps all p
               \<and> normalizedUrl e p \<in> set (currentOpenedPages s)} \<subseteq> set opened"
    proof
      fix p assume "p \<in> {p \<in> set (pages s). isAffected e fps all p
               \<and> normalizedUrl e p \<in> set (currentOpenedPages s)}"
      then have p: "p \<in> set (pages s)" "isAffected e fps all p"
        "normalizedUrl e p \<in> set (currentOpenedPages s)" by simp_all
      from rep [OF p] obtain q where q: "q \<in> set opened"
        "normalizedUrl e q = normalizedUrl e p" "q \<in> set (pages s)" by blast
      from d have "inj_on (normalizedUrl e) (set (pages s))" by (simp add: distinct_map)
      with q(2,3) p(1) have "q = p" by (auto dest: inj_onD)
      with q(1) show "p \<in> set opened" by simp
    qed
  qed
qed

theorem regenerateAffectedPages_affected_witness:
  "affectedPages exampleEnv [''/site/_markbind/variables.md''] exampleOpenedSite
     = (exampleOpenedSite\<lparr>toRebuild := {''/site/guide''}\<rparr>, [indexPage], [])
   \<and> lazyMode exampleOpenedSite
   \<and> \<not> list_ex (isDependency exampleEnv guidePage) [''/site/_markbind/variables.md'']
   \<and> isAffected exampleEnv [''/site/_markbind/variables.md''] True guidePage
   \<and> normalizedUrl exampleEnv guidePage = ''/site/guide''"
proof -
  have h: "affectedPages exampleEnv [''/site/_markbind/variables.md''] exampleOpenedSite
     = (exampleOpenedSite\<lparr>toRebuild := {''/site/guide''}\<rparr>, [indexPage], [])"
    by (simp add: affectedPages_def affectedStep_def isAffected_def lazyMode_def normalizedUrl_def
        collectUserDefinedVariablesMapIfNeeded_def exampleEnv_def exampleOpenedSite_def mkSite_def
        indexPage_def guidePage_def mkPage_def)
  from regenerateAffectedPages_affected [OF h refl] h show ?thesis
    by (simp add: isAffected_def lazyMode_def normalizedUrl_def exampleEnv_def
        exampleOpenedSite_def mkSite_def guidePage_def mkPage_def)
qed

section \<open>runPageGenerationTasks: the completion flag\<close>

lemmas site_ops = tick_def stopOngoingBuilds_def logDebug_def callGenerate_def pageGenerated_def
  writeSiteData_def Let_def

lemma sameBuild_refl: "clockConsistent s \<Longrightarrow> sameBuild s s"
  by (simp add: sameBuild_def clockConsistent_def)

lemma sameBuild_trans: "sameBuild s s1 \<Longrightarrow> sameBuild s1 s2 \<Longrightarrow> sameBuild s s2"
  by (auto simp: sameBuild_def)

lemma sameBuild_consistent: "sameBuild s s' \<Longrightarrow> clockConsistent s'"
  by (simp add: sameBuild_def clockConsistent_def)

lemma sameBuild_ops:
  assumes "clockConsistent s"
  shows "sameBuild s (tick s)" "sameBuild s (stopOngoingBuilds s)" "sameBuild s (logDebug m s)"
    "sameBuild s (callGenerate p s)" "sameBuild s (pageGenerated e p s)"
  using assms by (simp_all add: sameBuild_def clockConsistent_def site_ops)




lemma stopThrottled_unsettled:
  assumes "promise t = Unsettled" "isCompleted (ctx t)" "stopRequested (startTime (ctx t)) s"
    "stopThrottled (t, s) = (t', s')"
  shows "promise t' = Resolved False \<and> \<not> isCompleted (ctx t')
       \<and> debugLog s' = debugLog s @ [''Page generation stopped at asynchronous generation'']
       \<and> startTime (ctx t') = startTime (ctx t) \<and> stopRequested (startTime (ctx t')) s'
       \<and> s' = logDebug ''Page generation stopped at asynchronous generation'' s
       \<and> inFlight t' = inFlight t \<and> pageGenerationQueue t' = pageGenerationQueue t"
  using assms by (auto simp: stopThrottled_def settle_def logDebug_def stopRequested_def)

lemma generatePage_unsettled:
  assumes c: "clockConsistent s" and u: "promise t = Unsettled" "isCompleted (ctx t)"
    and g: "generatePage p (t, s) = (t', s')"
  shows "sameBuild s s' \<and> startTime (ctx t') = startTime (ctx t)
       \<and> throttledOk (debugLog s) (t', s') \<and> promise t' \<noteq> Resolved True
       \<and> (\<forall>m. promise t' \<noteq> Rejected m)
       \<and> (promise t' = Resolved False \<longrightarrow> \<not> isCompleted (ctx t'))
       \<and> numPagesGenerated (ctx t') = numPagesGenerated (ctx t)
       \<and> numPagesToGenerate (ctx t') = numPagesToGenerate (ctx t)"
proof (cases "stopRequested (startTime (ctx t)) s")
  case True
  with g have st: "stopThrottled (t, s) = (t', s')" by (simp add: generatePage_def)
  from stopThrottled_unsettled [OF u True st] sameBuild_ops(3) [OF c] st u
  show ?thesis by (auto simp: throttledOk_def stopThrottled_def settle_def)
next
  case False
  with g have "t' = t\<lparr>inFlight := inFlight t @ [p]\<rparr>" "s' = callGenerate p s"
    by (simp_all add: generatePage_def)
  with u sameBuild_ops(4) [OF c] show ?thesis
    by (simp add: throttledOk_def callGenerate_def)
qed




lemma generatePage_starting:
  assumes c: "clockConsistent s" and ok: "startingOk log0 (t, s)"
    and g: "generatePage p (t, s) = (t', s')"
  shows "sameBuild s s' \<and> startTime (ctx t') = startTime (ctx t) \<and> startingOk log0 (t', s')"
proof (cases "promise t = Unsettled")
  case True
  with ok have u: "isCompleted (ctx t)" "debugLog s = log0"
    by (auto simp: startingOk_def throttledOk_def)
  from generatePage_unsettled [OF c True u(1) g] u(2) show ?thesis
    by (simp add: startingOk_def)
next
  case False
  with ok have "promise t = Resolved False" "\<not> isCompleted (ctx t)"
    "stopRequested (startTime (ctx t)) s"
    by (auto simp: startingOk_def throttledOk_def)
  with g have "t' = t" "s' = s" by (simp_all add: generatePage_def stopThrottled_def)
  with ok sameBuild_refl [OF c] show ?thesis by simp
qed

lemma fold_generatePage_starting:
  "clockConsistent s \<Longrightarrow> startingOk log0 (t, s) \<Longrightarrow> fold generatePage ps (t, s) = (t', s') \<Longrightarrow>
     sameBuild s s' \<and> startTime (ctx t') = startTime (ctx t) \<and> startingOk log0 (t', s')"
proof (induction ps arbitrary: t s)
  case Nil
  then show ?case by (auto simp: sameBuild_refl)
next
  case (Cons p ps)
  obtain t1 s1 where g: "generatePage p (t, s) = (t1, s1)"
    by (cases "generatePage p (t, s)") auto
  from generatePage_starting [OF Cons.prems(1,2) g]
  have sb: "sameBuild s s1" and st: "startTime (ctx t1) = startTime (ctx t)"
    and ok: "startingOk log0 (t1, s1)" by simp_all
  from Cons.prems(3) g have "fold generatePage ps (t1, s1) = (t', s')" by simp
  from Cons.IH [OF sameBuild_consistent [OF sb] ok this] sb st show ?case
    by (auto intro: sameBuild_trans)
qed

lemma startThrottled_ok:
  assumes c: "clockConsistent s" and g: "startThrottled e ps s = (t, s1)"
  shows "sameBuild s s1 \<and> startTime (ctx t) = clock s \<and> startingOk (debugLog s) (t, s1)"
proof -
  let ?t0 = "\<lparr>ctx = \<lparr>startTime = clock s, numPagesGenerated = 0, numPagesToGenerate = length ps,
                isCompleted = True\<rparr>,
         pageGenerationQueue = drop (MAX_CONCURRENT_PAGE_GENERATION_PROMISES e) ps,
         inFlight = [], promise = Unsettled\<rparr>"
  have "startingOk (debugLog s) (?t0, s)" by (simp add: startingOk_def throttledOk_def)
  from fold_generatePage_starting [OF c this g [unfolded startThrottled_def]]
  show ?thesis by simp
qed



lemma sameTime_refl: "sameTime s s"
  by (simp add: sameTime_def)

lemma sameTime_trans: "sameTime s s1 \<Longrightarrow> sameTime s1 s2 \<Longrightarrow> sameTime s s2"
  by (simp add: sameTime_def)

lemma sameTime_ops: "sameTime s (callGenerate p s)" "sameTime s (pageGenerated e p s)"
  by (simp_all add: sameTime_def site_ops)

lemma sameTime_stopRequested: "sameTime s s' \<Longrightarrow> stopRequested t0 s' = stopRequested t0 s"
  by (simp add: sameTime_def stopRequested_def)


lemma fold_generatePage_dispatch:
  "\<not> stopRequested (startTime (ctx t)) s \<Longrightarrow>
   \<exists>s'. fold generatePage qs (t, s) = (t\<lparr>inFlight := inFlight t @ qs\<rparr>, s') \<and> sameTime s s'
        \<and> generateCalls s' = generateCalls s @ qs \<and> toRebuild s' = toRebuild s"
proof (induction qs arbitrary: t s)
  case Nil
  then show ?case by (simp add: sameTime_refl)
next
  case (Cons q qs)
  let ?t1 = "t\<lparr>inFlight := inFlight t @ [q]\<rparr>"
  let ?s1 = "callGenerate q s"
  from Cons.prems have g: "generatePage q (t, s) = (?t1, ?s1)" by (simp add: generatePage_def)
  have "\<not> stopRequested (startTime (ctx ?t1)) ?s1"
    using Cons.prems sameTime_stopRequested [OF sameTime_ops(1)] by simp
  from Cons.IH [OF this] obtain s' where
    "fold generatePage qs (?t1, ?s1) = (?t1\<lparr>inFlight := inFlight ?t1 @ qs\<rparr>, s')"
    "sameTime ?s1 s'" "generateCalls s' = generateCalls ?s1 @ qs" "toRebuild s' = toRebuild ?s1"
    by blast
  with g show ?case
    by (auto intro: sameTime_trans [OF sameTime_ops(1)] simp: callGenerate_def)
qed








lemmas schedule_eval =
  runPageGenerationTasks_def generatePagesSequential_def generatePagesAsyncThrottled_def
  startThrottled_def throttledStep_def generateSettled_def generateProgressBarStatus_def
  generatePage_def stopThrottled_def settle_def stopRequested_def normalizedUrl_def
  tick_def stopOngoingBuilds_def logDebug_def callGenerate_def pageGenerated_def
  writeSiteData_def siteDataOf_def errorWhileGenerating_def Let_def

section \<open>generatePagesAsyncThrottled: the bounded pool\<close>

lemma removeAt_length:
  "i < length xs \<Longrightarrow> length (take i xs @ drop (Suc i) xs) = length xs - 1"
  by simp

lemma queue_pop:
  assumes q: "q = take (length q) rest" and ne: "q \<noteq> []"
  shows "butlast q = take (length (butlast q)) rest"
    and "rev (drop (length (butlast q)) rest) = rev (drop (length q) rest) @ [last q]"
proof -
  let ?m = "length q"
  have "length q = length (take (length q) rest)" by (rule arg_cong [OF q])
  then have m: "?m \<le> length rest" by (simp only: length_take)
  from ne have pos: "?m \<noteq> 0" by simp
  have "butlast q = butlast (take ?m rest)" by (rule arg_cong [OF q])
  then have bl: "butlast q = take (?m - 1) rest"
    by (simp only: butlast_take [OF m])
  show "butlast q = take (length (butlast q)) rest"
    unfolding length_butlast by (rule bl)
  have "last q = q ! (?m - 1)" by (rule last_conv_nth [OF ne])
  also have "q ! (?m - 1) = take ?m rest ! (?m - 1)"
    by (rule arg_cong [where f = "\<lambda>x. x ! (?m - 1)", OF q])
  also have "take ?m rest ! (?m - 1) = rest ! (?m - 1)"
    using pos by (intro nth_take) arith
  finally have lq: "last q = rest ! (?m - 1)" .
  from m pos have "?m - 1 < length rest" by arith
  from Cons_nth_drop_Suc [OF this] pos
  have d: "drop (?m - 1) rest = rest ! (?m - 1) # drop ?m rest" by simp
  show "rev (drop (length (butlast q)) rest) = rev (drop (length q) rest) @ [last q]"
    unfolding length_butlast d lq by simp
qed

lemma throttledStep_cases:
  obtains
    (idle) i ok where "throttledStep e ev (t, s) = (t, s)" "ev = Done i ok"
      "\<not> i < length (inFlight t)"
  | (env) "ev = Tick \<or> ev = Stop" "fst (throttledStep e ev (t, s)) = t"
      "generateCalls (snd (throttledStep e ev (t, s))) = generateCalls s"
  | (rejected) i where "ev = Done i False" "i < length (inFlight t)"
      "throttledStep e ev (t, s)
         = (settle (Rejected (errorWhileGenerating (inFlight t ! i)))
              (t\<lparr>inFlight := take i (inFlight t) @ drop (Suc i) (inFlight t)\<rparr>), s)"
  | (stopped) i where "ev = Done i True" "i < length (inFlight t)"
      "stopRequested (startTime (ctx t)) (pageGenerated e (inFlight t ! i) s)"
      "throttledStep e ev (t, s)
         = stopThrottled (t\<lparr>inFlight := take i (inFlight t) @ drop (Suc i) (inFlight t)\<rparr>,
              pageGenerated e (inFlight t ! i) s)"
  | (refill) i where "ev = Done i True" "i < length (inFlight t)"
      "\<not> stopRequested (startTime (ctx t)) (pageGenerated e (inFlight t ! i) s)"
      "pageGenerationQueue t \<noteq> []"
      "throttledStep e ev (t, s)
         = (t\<lparr>inFlight := take i (inFlight t) @ drop (Suc i) (inFlight t) @ [last (pageGenerationQueue t)],
               ctx := (ctx t)\<lparr>numPagesGenerated := Suc (numPagesGenerated (ctx t))\<rparr>,
               pageGenerationQueue := butlast (pageGenerationQueue t)\<rparr>,
            callGenerate (last (pageGenerationQueue t)) (pageGenerated e (inFlight t ! i) s))"
  | (counted) i where "ev = Done i True" "i < length (inFlight t)"
      "\<not> stopRequested (startTime (ctx t)) (pageGenerated e (inFlight t ! i) s)"
      "pageGenerationQueue t = []"
      "throttledStep e ev (t, s)
         = ((if Suc (numPagesGenerated (ctx t)) = numPagesToGenerate (ctx t)
             then settle (Resolved True) else (\<lambda>x. x))
              (t\<lparr>inFlight := take i (inFlight t) @ drop (Suc i) (inFlight t),
                 ctx := (ctx t)\<lparr>numPagesGenerated := Suc (numPagesGenerated (ctx t))\<rparr>\<rparr>),
            pageGenerated e (inFlight t ! i) s)"
proof (cases ev)
  case Tick
  then show ?thesis using env by (simp add: throttledStep_def tick_def)
next
  case Stop
  then show ?thesis using env by (simp add: throttledStep_def stopOngoingBuilds_def)
next
  case (Done i ok)
  show ?thesis
  proof (cases "i < length (inFlight t)")
    case False
    with Done idle [of i ok] show ?thesis by (simp add: throttledStep_def generateSettled_def)
  next
    case True
    show ?thesis
    proof (cases ok)
      case False
      with Done True rejected [of i] show ?thesis
        by (simp add: throttledStep_def generateSettled_def Let_def)
    next
      case ok: True
      show ?thesis
      proof (cases "stopRequested (startTime (ctx t)) (pageGenerated e (inFlight t ! i) s)")
        case True
        with Done \<open>i < length (inFlight t)\<close> ok stopped [of i] show ?thesis
          by (simp add: throttledStep_def generateSettled_def generateProgressBarStatus_def Let_def)
      next
        case False
        have same: "stopRequested (startTime (ctx t)) (pageGenerated e (inFlight t ! i) s)
            = stopRequested (startTime (ctx t)) s" for x
          by (simp add: stopRequested_def pageGenerated_def writeSiteData_def Let_def)
        show ?thesis
        proof (cases "pageGenerationQueue t = []")
          case True
          with Done \<open>i < length (inFlight t)\<close> ok False counted [of i] show ?thesis
            by (simp add: throttledStep_def generateSettled_def generateProgressBarStatus_def
                Let_def)
        next
          case ne: False
          with Done \<open>i < length (inFlight t)\<close> ok False refill [of i] show ?thesis
            by (simp add: throttledStep_def generateSettled_def generateProgressBarStatus_def
                generatePage_def Let_def)
        qed
      qed
    qed
  qed
qed

lemma stopThrottled_frame:
  assumes "stopThrottled (t, s) = (t', s')"
  shows "inFlight t' = inFlight t" "pageGenerationQueue t' = pageGenerationQueue t"
    "generateCalls s' = generateCalls s" "toRebuild s' = toRebuild s"
    "numPagesGenerated (ctx t') = numPagesGenerated (ctx t)"
    "numPagesToGenerate (ctx t') = numPagesToGenerate (ctx t)"
    "startTime (ctx t') = startTime (ctx t)"
    "\<not> isCompleted (ctx t')"
    "promise t' = (if isCompleted (ctx t) \<and> promise t = Unsettled then Resolved False else promise t)"
    "stopRequested t0 s' = stopRequested t0 s"
  using assms
  by (auto simp: stopThrottled_def settle_def logDebug_def stopRequested_def split: if_splits)

lemma pageGenerated_frame:
  "generateCalls (pageGenerated e p s) = generateCalls s"
  "stopRequested t0 (pageGenerated e p s) = stopRequested t0 s"
  "toRebuild (pageGenerated e p s) = toRebuild s - {normalizedUrl e p}"
  "debugLog (pageGenerated e p s) = debugLog s"
  by (simp_all add: pageGenerated_def writeSiteData_def stopRequested_def Let_def)

lemma dispatchInvI:
  "pageGenerationQueue t
     = take (length (pageGenerationQueue t)) (drop (MAX_CONCURRENT_PAGE_GENERATION_PROMISES e) ps) \<Longrightarrow>
   generateCalls s
     = generateCalls s0 @ take (MAX_CONCURRENT_PAGE_GENERATION_PROMISES e) ps
         @ rev (drop (length (pageGenerationQueue t))
                 (drop (MAX_CONCURRENT_PAGE_GENERATION_PROMISES e) ps)) \<Longrightarrow>
   length (inFlight t) \<le> MAX_CONCURRENT_PAGE_GENERATION_PROMISES e \<Longrightarrow>
   dispatchInv e ps s0 (t, s)"
  by (simp add: dispatchInv_def)

lemma dispatchInv_step:
  assumes inv: "dispatchInv e ps s0 (t, s)"
  shows "dispatchInv e ps s0 (throttledStep e ev (t, s))"
proof (cases rule: throttledStep_cases [of e ev t s])
  case idle
  with inv show ?thesis by simp
next
  case env
  with inv show ?thesis
    by (cases "throttledStep e ev (t, s)") (simp add: dispatchInv_def)
next
  case (rejected i)
  with inv show ?thesis
    by (auto simp: dispatchInv_def settle_def)
next
  case (stopped i)
  obtain t' s' where st: "stopThrottled (t\<lparr>inFlight := take i (inFlight t) @ drop (Suc i) (inFlight t)\<rparr>,
              pageGenerated e (inFlight t ! i) s) = (t', s')"
    by (cases "stopThrottled (t\<lparr>inFlight := take i (inFlight t) @ drop (Suc i) (inFlight t)\<rparr>,
              pageGenerated e (inFlight t ! i) s)") auto
  from stopThrottled_frame(1-3) [OF st] inv stopped(2) show ?thesis
    unfolding stopped(4) st by (auto simp: dispatchInv_def pageGenerated_frame)
next
  case (refill i)
  let ?K = "MAX_CONCURRENT_PAGE_GENERATION_PROMISES e"
  from inv have q: "pageGenerationQueue t = take (length (pageGenerationQueue t)) (drop ?K ps)"
    and g: "generateCalls s = generateCalls s0 @ take ?K ps
              @ rev (drop (length (pageGenerationQueue t)) (drop ?K ps))"
    and l: "length (inFlight t) \<le> ?K"
    by (simp_all add: dispatchInv_def)
  note pop = queue_pop [OF q refill(4)]
  let ?t2 = "t\<lparr>inFlight := take i (inFlight t) @ drop (Suc i) (inFlight t) @ [last (pageGenerationQueue t)],
               ctx := (ctx t)\<lparr>numPagesGenerated := Suc (numPagesGenerated (ctx t))\<rparr>,
               pageGenerationQueue := butlast (pageGenerationQueue t)\<rparr>"
  let ?s2 = "callGenerate (last (pageGenerationQueue t)) (pageGenerated e (inFlight t ! i) s)"
  have A: "pageGenerationQueue ?t2 = butlast (pageGenerationQueue t)" by simp
  have B: "generateCalls ?s2 = generateCalls s @ [last (pageGenerationQueue t)]"
    by (simp add: callGenerate_def pageGenerated_frame)
  have C: "length (inFlight ?t2) \<le> ?K" using refill(2) l by simp
  show ?thesis
    unfolding refill(5)
  proof (rule dispatchInvI)
    show "pageGenerationQueue ?t2 = take (length (pageGenerationQueue ?t2)) (drop ?K ps)"
      unfolding A by (rule pop(1))
    show "generateCalls ?s2 = generateCalls s0 @ take ?K ps
              @ rev (drop (length (pageGenerationQueue ?t2)) (drop ?K ps))"
      unfolding A B pop(2) g by simp
    show "length (inFlight ?t2) \<le> ?K" by (rule C)
  qed
next
  case (counted i)
  with inv show ?thesis
    by (auto simp: dispatchInv_def settle_def pageGenerated_frame)
qed

lemma countInv_step:
  assumes inv: "countInv n t"
  shows "countInv n (fst (throttledStep e ev (t, s)))"
proof (cases rule: throttledStep_cases [of e ev t s])
  case idle
  with inv show ?thesis by simp
next
  case env
  with inv show ?thesis by simp
next
  case (rejected i)
  with inv show ?thesis
    by (auto simp: countInv_def settle_def)
next
  case (stopped i)
  obtain t' s' where st: "stopThrottled (t\<lparr>inFlight := take i (inFlight t) @ drop (Suc i) (inFlight t)\<rparr>,
              pageGenerated e (inFlight t ! i) s) = (t', s')"
    by (cases "stopThrottled (t\<lparr>inFlight := take i (inFlight t) @ drop (Suc i) (inFlight t)\<rparr>,
              pageGenerated e (inFlight t ! i) s)") auto
  from stopThrottled_frame(1,2,5,6,9) [OF st] inv stopped(2) show ?thesis
    unfolding stopped(4) st by (cases "promise t") (auto simp: countInv_def)
next
  case (refill i)
  from refill(4) obtain k where k: "length (pageGenerationQueue t) = Suc k"
    by (cases "pageGenerationQueue t") auto
  with inv refill(2) show ?thesis
    unfolding refill(5) by (cases "promise t") (auto simp: countInv_def)
next
  case (counted i)
  with inv show ?thesis
    by (cases "promise t") (auto simp: countInv_def settle_def)
qed

lemma startThrottled_dispatch:
  assumes "stopGenerationTimeThreshold s \<le> clock s"
  shows "\<exists>s1. startThrottled e ps s =
        (\<lparr>ctx = \<lparr>startTime = clock s, numPagesGenerated = 0, numPagesToGenerate = length ps,
                isCompleted = True\<rparr>,
          pageGenerationQueue = drop (MAX_CONCURRENT_PAGE_GENERATION_PROMISES e) ps,
          inFlight = take (MAX_CONCURRENT_PAGE_GENERATION_PROMISES e) ps, promise = Unsettled\<rparr>, s1)
      \<and> generateCalls s1 = generateCalls s @ take (MAX_CONCURRENT_PAGE_GENERATION_PROMISES e) ps
      \<and> toRebuild s1 = toRebuild s"
proof -
  let ?K = "MAX_CONCURRENT_PAGE_GENERATION_PROMISES e"
  let ?t0 = "\<lparr>ctx = \<lparr>startTime = clock s, numPagesGenerated = 0, numPagesToGenerate = length ps,
                isCompleted = True\<rparr>,
         pageGenerationQueue = drop ?K ps, inFlight = [], promise = Unsettled\<rparr>"
  from assms have "\<not> stopRequested (startTime (ctx ?t0)) s" by (simp add: stopRequested_def)
  from fold_generatePage_dispatch [OF this, of "take ?K ps"] show ?thesis
    by (auto simp: startThrottled_def)
qed

lemma startThrottled_inv:
  assumes "stopGenerationTimeThreshold s \<le> clock s"
  shows "dispatchInv e ps s (startThrottled e ps s)"
    and "countInv (length ps) (fst (startThrottled e ps s))"
proof -
  from startThrottled_dispatch [OF assms, of e ps] obtain s1 where
    st: "startThrottled e ps s =
        (\<lparr>ctx = \<lparr>startTime = clock s, numPagesGenerated = 0, numPagesToGenerate = length ps,
                isCompleted = True\<rparr>,
          pageGenerationQueue = drop (MAX_CONCURRENT_PAGE_GENERATION_PROMISES e) ps,
          inFlight = take (MAX_CONCURRENT_PAGE_GENERATION_PROMISES e) ps, promise = Unsettled\<rparr>, s1)"
    and g: "generateCalls s1 = generateCalls s @ take (MAX_CONCURRENT_PAGE_GENERATION_PROMISES e) ps"
    by blast
  show "dispatchInv e ps s (startThrottled e ps s)"
    unfolding st by (rule dispatchInvI) (simp_all add: g)
  show "countInv (length ps) (fst (startThrottled e ps s))"
    unfolding st by (auto simp: countInv_def)
qed

lemma fold_throttledStep_inv:
  "dispatchInv e ps s0 ts \<Longrightarrow> countInv n (fst ts) \<Longrightarrow>
   dispatchInv e ps s0 (fold (throttledStep e) evs ts)
   \<and> countInv n (fst (fold (throttledStep e) evs ts))"
proof (induction evs arbitrary: ts)
  case Nil
  then show ?case by simp
next
  case (Cons ev evs)
  obtain t s where ts: "ts = (t, s)" by (cases ts)
  from Cons.prems dispatchInv_step [of e ps s0 t s ev] countInv_step [of n t e ev s]
  have "dispatchInv e ps s0 (throttledStep e ev ts)" "countInv n (fst (throttledStep e ev ts))"
    by (simp_all add: ts)
  from Cons.IH [OF this] show ?case by simp
qed

lemma throttledStep_dispatches:
  "throttledStep e ev (t, s) = (t2, s2) \<Longrightarrow>
     (generateCalls s2 = generateCalls s \<and> pageGenerationQueue t2 = pageGenerationQueue t)
     \<or> (pageGenerationQueue t \<noteq> []
         \<and> generateCalls s2 = generateCalls s @ [last (pageGenerationQueue t)]
         \<and> pageGenerationQueue t2 = butlast (pageGenerationQueue t))"
proof (cases rule: throttledStep_cases [of e ev t s])
  case idle
  then show "throttledStep e ev (t, s) = (t2, s2) \<Longrightarrow> ?thesis" by simp
next
  case env
  then show "throttledStep e ev (t, s) = (t2, s2) \<Longrightarrow> ?thesis" by auto
next
  case (rejected i)
  then show "throttledStep e ev (t, s) = (t2, s2) \<Longrightarrow> ?thesis" by (auto simp: settle_def)
next
  case (stopped i)
  assume r: "throttledStep e ev (t, s) = (t2, s2)"
  with stopped(4) have st: "stopThrottled (t\<lparr>inFlight := take i (inFlight t) @ drop (Suc i) (inFlight t)\<rparr>,
              pageGenerated e (inFlight t ! i) s) = (t2, s2)" by simp
  from stopThrottled_frame(2,3) [OF st] show ?thesis by (simp add: pageGenerated_frame)
next
  case (refill i)
  assume "throttledStep e ev (t, s) = (t2, s2)"
  with refill show ?thesis by (auto simp: callGenerate_def pageGenerated_frame)
next
  case (counted i)
  assume "throttledStep e ev (t, s) = (t2, s2)"
  with counted show ?thesis by (auto simp: settle_def pageGenerated_frame)
qed

text \<open>
  C4, as stated, fails in two ways that are the design of the scheduler. With fewer pages
  than the pool bound only the pages there are get dispatched (one page, bound two: one
  call in flight). And a stop request seen when the last page completes resolves the task
  as incomplete although every page was dispatched and generated.
\<close>

theorem generatePagesAsyncThrottled_pool_counterexample:
  "length (inFlight (fst (startThrottled exampleEnv [indexPage] exampleBackgroundSite))) = 1
   \<and> MAX_CONCURRENT_PAGE_GENERATION_PROMISES exampleEnv = 2
   \<and> promise (fst (fold (throttledStep exampleEnv) [Tick, Stop, Done 0 True]
          (startThrottled exampleEnv [indexPage] exampleBackgroundSite))) = Resolved False
   \<and> generateCalls (snd (fold (throttledStep exampleEnv) [Tick, Stop, Done 0 True]
          (startThrottled exampleEnv [indexPage] exampleBackgroundSite))) = [indexPage]
   \<and> inFlight (fst (fold (throttledStep exampleEnv) [Tick, Stop, Done 0 True]
          (startThrottled exampleEnv [indexPage] exampleBackgroundSite))) = []"
  by (simp add: schedule_eval exampleEnv_def exampleBackgroundSite_def mkSite_def indexPage_def
      mkPage_def)

text \<open>
  C4, amended. For a concurrent task over the pages \<open>ps\<close> with pool bound \<open>K\<close>, started on a
  site whose threshold is not ahead of its clock, and after any schedule of events: the
  first \<open>min K N\<close> pages are dispatched, in order, before any event is read; at most \<open>K\<close>
  calls are in flight; the queue is always a prefix of the pages after the first \<open>K\<close>, the
  pages dispatched so far are the first \<open>K\<close> followed by the rest of the queue taken from
  its tail, and one event dispatches at most one page, the last of the queue; and the
  promise is resolved with true exactly when there is at least one page and all \<open>N\<close>
  completions have been counted (each \<^verbatim>\<open>generate\<close> resolved with no stop request seen),
  at which point nothing is queued or in flight.
\<close>

theorem generatePagesAsyncThrottled_pool:
  assumes "stopGenerationTimeThreshold s \<le> clock s"
    and "fold (throttledStep e) evs (startThrottled e ps s) = (t, s')"
  shows "inFlight (fst (startThrottled e ps s)) = take (MAX_CONCURRENT_PAGE_GENERATION_PROMISES e) ps
     \<and> generateCalls (snd (startThrottled e ps s))
         = generateCalls s @ take (MAX_CONCURRENT_PAGE_GENERATION_PROMISES e) ps
     \<and> length (inFlight t) \<le> MAX_CONCURRENT_PAGE_GENERATION_PROMISES e
     \<and> pageGenerationQueue t
         = take (length (pageGenerationQueue t)) (drop (MAX_CONCURRENT_PAGE_GENERATION_PROMISES e) ps)
     \<and> generateCalls s'
         = generateCalls s @ take (MAX_CONCURRENT_PAGE_GENERATION_PROMISES e) ps
             @ rev (drop (length (pageGenerationQueue t))
                     (drop (MAX_CONCURRENT_PAGE_GENERATION_PROMISES e) ps))
     \<and> (\<forall>ev t2 s2. throttledStep e ev (t, s') = (t2, s2) \<longrightarrow>
           (generateCalls s2 = generateCalls s' \<and> pageGenerationQueue t2 = pageGenerationQueue t)
           \<or> (pageGenerationQueue t \<noteq> []
               \<and> generateCalls s2 = generateCalls s' @ [last (pageGenerationQueue t)]
               \<and> pageGenerationQueue t2 = butlast (pageGenerationQueue t)))
     \<and> (promise t = Resolved True \<longleftrightarrow> ps \<noteq> [] \<and> numPagesGenerated (ctx t) = length ps)
     \<and> (promise t = Resolved True \<longrightarrow> inFlight t = [] \<and> pageGenerationQueue t = [])"
proof -
  from startThrottled_dispatch [OF assms(1), of e ps] obtain s1 where
    st: "startThrottled e ps s =
        (\<lparr>ctx = \<lparr>startTime = clock s, numPagesGenerated = 0, numPagesToGenerate = length ps,
                isCompleted = True\<rparr>,
          pageGenerationQueue = drop (MAX_CONCURRENT_PAGE_GENERATION_PROMISES e) ps,
          inFlight = take (MAX_CONCURRENT_PAGE_GENERATION_PROMISES e) ps, promise = Unsettled\<rparr>, s1)"
    and g: "generateCalls s1 = generateCalls s @ take (MAX_CONCURRENT_PAGE_GENERATION_PROMISES e) ps"
    by blast
  from fold_throttledStep_inv [OF startThrottled_inv [OF assms(1), where e = e and ps = ps], of evs]
  have d: "dispatchInv e ps s (t, s')" and c: "countInv (length ps) t"
    by (simp_all add: assms(2))
  have start: "inFlight (fst (startThrottled e ps s)) = take (MAX_CONCURRENT_PAGE_GENERATION_PROMISES e) ps"
    "generateCalls (snd (startThrottled e ps s))
         = generateCalls s @ take (MAX_CONCURRENT_PAGE_GENERATION_PROMISES e) ps"
    by (simp_all add: st g)
  from d have pool: "length (inFlight t) \<le> MAX_CONCURRENT_PAGE_GENERATION_PROMISES e"
    and q: "pageGenerationQueue t
         = take (length (pageGenerationQueue t)) (drop (MAX_CONCURRENT_PAGE_GENERATION_PROMISES e) ps)"
    and calls: "generateCalls s'
         = generateCalls s @ take (MAX_CONCURRENT_PAGE_GENERATION_PROMISES e) ps
             @ rev (drop (length (pageGenerationQueue t))
                     (drop (MAX_CONCURRENT_PAGE_GENERATION_PROMISES e) ps))"
    by (simp_all add: dispatchInv_def)
  have step: "\<forall>ev t2 s2. throttledStep e ev (t, s') = (t2, s2) \<longrightarrow>
           (generateCalls s2 = generateCalls s' \<and> pageGenerationQueue t2 = pageGenerationQueue t)
           \<or> (pageGenerationQueue t \<noteq> []
               \<and> generateCalls s2 = generateCalls s' @ [last (pageGenerationQueue t)]
               \<and> pageGenerationQueue t2 = butlast (pageGenerationQueue t))"
    using throttledStep_dispatches by blast
  have res: "promise t = Resolved True \<longleftrightarrow> ps \<noteq> [] \<and> numPagesGenerated (ctx t) = length ps"
    using c by (cases "promise t") (auto simp: countInv_def)
  have fin: "promise t = Resolved True \<longrightarrow> inFlight t = [] \<and> pageGenerationQueue t = []"
    using c by (auto simp: countInv_def)
  from start pool q calls step res fin show ?thesis by blast
qed

theorem generatePagesAsyncThrottled_pool_witness:
  "stopGenerationTimeThreshold exampleBackgroundSite \<le> clock exampleBackgroundSite
   \<and> generateCalls (snd (fold (throttledStep exampleEnv) [Done 1 True, Done 0 True, Done 0 True]
        (startThrottled exampleEnv [indexPage, guidePage, mkPage ''about.md'' True None]
           exampleBackgroundSite)))
       = [indexPage, guidePage, mkPage ''about.md'' True None]
   \<and> promise (fst (fold (throttledStep exampleEnv) [Done 1 True, Done 0 True, Done 0 True]
        (startThrottled exampleEnv [indexPage, guidePage, mkPage ''about.md'' True None]
           exampleBackgroundSite))) = Resolved True
   \<and> numPagesGenerated (ctx (fst (fold (throttledStep exampleEnv)
        [Done 1 True, Done 0 True, Done 0 True]
        (startThrottled exampleEnv [indexPage, guidePage, mkPage ''about.md'' True None]
           exampleBackgroundSite)))) = 3"
proof -
  let ?X = "fold (throttledStep exampleEnv) [Done 1 True, Done 0 True, Done 0 True]
        (startThrottled exampleEnv [indexPage, guidePage, mkPage ''about.md'' True None]
           exampleBackgroundSite)"
  have h: "stopGenerationTimeThreshold exampleBackgroundSite \<le> clock exampleBackgroundSite"
    by (simp add: exampleBackgroundSite_def mkSite_def)
  have f: "?X = (fst ?X, snd ?X)" by simp
  have n: "numPagesGenerated (ctx (fst ?X)) = 3"
    by (simp add: schedule_eval exampleEnv_def exampleBackgroundSite_def mkSite_def indexPage_def
        guidePage_def mkPage_def)
  have calls: "generateCalls (snd ?X) = [indexPage, guidePage, mkPage ''about.md'' True None]"
    by (simp add: schedule_eval exampleEnv_def exampleBackgroundSite_def mkSite_def indexPage_def
        guidePage_def mkPage_def)
  from generatePagesAsyncThrottled_pool [OF h f]
  have "(promise (fst ?X) = Resolved True)
      = ([indexPage, guidePage, mkPage ''about.md'' True None] \<noteq> []
          \<and> numPagesGenerated (ctx (fst ?X))
              = length [indexPage, guidePage, mkPage ''about.md'' True None])"
    by (elim conjE)
  with n have "promise (fst ?X) = Resolved True" by simp
  with h n calls show ?thesis by simp
qed

text \<open>
  A concurrent task with no pages never settles its promise: nothing is dispatched, so no
  completion ever reaches the test that resolves it, and awaiting it never returns.
\<close>

theorem generatePagesAsyncThrottled_empty_never_settles:
  "promise (fst (fold (throttledStep e) evs (startThrottled e [] s))) = Unsettled
   \<and> fst (generatePagesAsyncThrottled e [] s es) = Pending"
proof -
  let ?t0 = "\<lparr>ctx = \<lparr>startTime = clock s, numPagesGenerated = 0, numPagesToGenerate = 0,
                isCompleted = True\<rparr>,
         pageGenerationQueue = [], inFlight = [], promise = Unsettled\<rparr>"
  have st: "startThrottled e [] s = (?t0, s)" by (simp add: startThrottled_def)
  have step: "fst (throttledStep e ev (?t0, x)) = ?t0" for ev x
    by (cases ev) (simp_all add: throttledStep_def generateSettled_def)
  have f: "fst (fold (throttledStep e) evs (?t0, x)) = ?t0" for evs x
  proof (induction evs arbitrary: x)
    case Nil
    show ?case by simp
  next
    case (Cons ev evs)
    obtain x' where "throttledStep e ev (?t0, x) = (?t0, x')"
      using step [of ev x] by (cases "throttledStep e ev (?t0, x)") auto
    with Cons.IH [of x'] show ?case by simp
  qed
  have a: "\<exists>x' es'. awaitPromise e es (?t0, x) = (?t0, x', es')" for es x
  proof (induction es arbitrary: x)
    case Nil
    show ?case by simp
  next
    case (Cons ev es)
    obtain x' where "throttledStep e ev (?t0, x) = (?t0, x')"
      using step [of ev x] by (cases "throttledStep e ev (?t0, x)") auto
    with Cons.IH [of x'] show ?case by simp
  qed
  from a [of es s] obtain x' es' where "awaitPromise e es (?t0, s) = (?t0, x', es')" by blast
  then have "fst (generatePagesAsyncThrottled e [] s es) = Pending"
    by (simp add: generatePagesAsyncThrottled_def st)
  with f [of evs s] show ?thesis
    unfolding st by simp
qed

section \<open>runPageGenerationTasks: the result, and that it arrives\<close>














section \<open>Cancellation: stopOngoingBuilds and the guards\<close>

lemma logDebug_frame:
  "stopRequested t0 (logDebug m s) = stopRequested t0 s"
  "generateCalls (logDebug m s) = generateCalls s"
  "toRebuild (logDebug m s) = toRebuild s"
  by (simp_all add: logDebug_def stopRequested_def)

lemma sequentialLoop_stopped:
  "stopRequested t0 s \<Longrightarrow>
   \<exists>s2. sequentialLoop e t0 ps c s es = (Returned (c \<and> ps = []), s2, es)
      \<and> generateCalls s2 = generateCalls s \<and> toRebuild s2 = toRebuild s"
proof (induction ps arbitrary: c s)
  case Nil
  then show ?case by simp
next
  case (Cons p ps)
  let ?s1 = "logDebug ''Page generation stopped at sequential generation'' s"
  from Cons.prems have "stopRequested t0 ?s1" by (simp add: logDebug_frame)
  from Cons.IH [OF this, of False] Cons.prems show ?case
    by (auto simp: logDebug_frame)
qed

lemma tasksLoop_stopped:
  "stopRequested t0 s \<Longrightarrow>
   \<exists>s2. tasksLoop e t0 tasks c s es = (Returned (c \<and> tasks = []), s2, es)
      \<and> generateCalls s2 = generateCalls s \<and> toRebuild s2 = toRebuild s"
proof (induction tasks arbitrary: c s)
  case Nil
  then show ?case by simp
next
  case (Cons task tasks)
  let ?s1 = "logDebug ''Page generation stopped at generation task queue'' s"
  from Cons.prems have "stopRequested t0 ?s1" by (simp add: logDebug_frame)
  from Cons.IH [OF this, of False] Cons.prems show ?case
    by (auto simp: logDebug_frame)
qed

lemma throttledStep_stopped:
  assumes c: "stopGenerationTimeThreshold s \<le> clock s"
    and sr: "stopRequested (startTime (ctx t)) s"
    and st: "throttledStep e ev (t, s) = (t', s')"
  shows "stopGenerationTimeThreshold s' \<le> clock s' \<and> stopRequested (startTime (ctx t')) s'
     \<and> generateCalls s' = generateCalls s \<and> pageGenerationQueue t' = pageGenerationQueue t"
proof (cases rule: throttledStep_cases [of e ev t s])
  case idle
  with st c sr show ?thesis by simp
next
  case env
  from env(1) st c sr show ?thesis
    by (auto simp: throttledStep_def tick_def stopOngoingBuilds_def stopRequested_def)
next
  case (rejected i)
  with st c sr show ?thesis by (auto simp: settle_def)
next
  case (stopped i)
  with st have x: "stopThrottled (t\<lparr>inFlight := take i (inFlight t) @ drop (Suc i) (inFlight t)\<rparr>,
              pageGenerated e (inFlight t ! i) s) = (t', s')" by simp
  have "stopGenerationTimeThreshold s' \<le> clock s'"
    using x c by (auto simp: stopThrottled_def logDebug_def pageGenerated_def writeSiteData_def
        Let_def split: if_splits)
  with stopThrottled_frame(2,3,7) [OF x] stopThrottled_frame(10) [OF x, of "startTime (ctx t)"] sr
  show ?thesis by (simp add: pageGenerated_frame)
next
  case (refill i)
  with sr show ?thesis by (simp add: pageGenerated_frame)
next
  case (counted i)
  with sr show ?thesis by (simp add: pageGenerated_frame)
qed

lemma throttledStep_sameBuild:
  assumes c: "clockConsistent s"
  shows "sameBuild s (snd (throttledStep e ev (t, s)))
     \<and> startTime (ctx (fst (throttledStep e ev (t, s)))) = startTime (ctx t)"
proof (cases rule: throttledStep_cases [of e ev t s])
  case idle
  then show ?thesis using sameBuild_refl [OF c] by simp
next
  case env
  then show ?thesis using sameBuild_ops(1,2) [OF c]
    by (auto simp: throttledStep_def)
next
  case (rejected i)
  then show ?thesis using sameBuild_refl [OF c] by (simp add: settle_def)
next
  case (stopped i)
  obtain t' s' where st: "stopThrottled (t\<lparr>inFlight := take i (inFlight t) @ drop (Suc i) (inFlight t)\<rparr>,
              pageGenerated e (inFlight t ! i) s) = (t', s')"
    by (cases "stopThrottled (t\<lparr>inFlight := take i (inFlight t) @ drop (Suc i) (inFlight t)\<rparr>,
              pageGenerated e (inFlight t ! i) s)") auto
  have sb: "sameBuild s (pageGenerated e (inFlight t ! i) s)" by (rule sameBuild_ops(5) [OF c])
  have "s' = pageGenerated e (inFlight t ! i) s
      \<or> s' = logDebug ''Page generation stopped at asynchronous generation''
                (pageGenerated e (inFlight t ! i) s)"
    using st by (auto simp: stopThrottled_def split: if_splits)
  then have "sameBuild s s'"
    using sb sameBuild_ops(3) [OF sameBuild_consistent [OF sb]]
    by (auto intro: sameBuild_trans)
  with stopThrottled_frame(7) [OF st] show ?thesis
    unfolding stopped(4) st by simp
next
  case (refill i)
  have sb: "sameBuild s (pageGenerated e (inFlight t ! i) s)" by (rule sameBuild_ops(5) [OF c])
  from sameBuild_trans [OF sb sameBuild_ops(4) [OF sameBuild_consistent [OF sb]]]
  show ?thesis unfolding refill(5) by simp
next
  case (counted i)
  from sameBuild_ops(5) [OF c] show ?thesis
    unfolding counted(5) by (simp add: settle_def)
qed

lemma fold_throttledStep_sameBuild:
  "clockConsistent s \<Longrightarrow>
   sameBuild s (snd (fold (throttledStep e) evs (t, s)))
   \<and> startTime (ctx (fst (fold (throttledStep e) evs (t, s)))) = startTime (ctx t)"
proof (induction evs arbitrary: t s)
  case Nil
  then show ?case by (simp add: sameBuild_refl)
next
  case (Cons ev evs)
  obtain t1 s1 where st: "throttledStep e ev (t, s) = (t1, s1)"
    by (cases "throttledStep e ev (t, s)") auto
  from throttledStep_sameBuild [OF Cons.prems, of e ev t] st
  have sb: "sameBuild s s1" and stt: "startTime (ctx t1) = startTime (ctx t)" by simp_all
  from Cons.IH [OF sameBuild_consistent [OF sb], of t1] st sb stt show ?case
    by (auto intro: sameBuild_trans)
qed

lemma fold_throttledStep_stop_stays:
  "stopGenerationTimeThreshold s \<le> clock s \<Longrightarrow> stopRequested (startTime (ctx t)) s \<Longrightarrow>
   fold (throttledStep e) evs (t, s) = (t', s') \<Longrightarrow>
     stopRequested (startTime (ctx t')) s' \<and> generateCalls s' = generateCalls s
     \<and> pageGenerationQueue t' = pageGenerationQueue t"
proof (induction evs arbitrary: t s)
  case Nil
  then show ?case by simp
next
  case (Cons ev evs)
  obtain t1 s1 where st: "throttledStep e ev (t, s) = (t1, s1)"
    by (cases "throttledStep e ev (t, s)") auto
  from throttledStep_stopped [OF Cons.prems(1,2) st]
  have a: "stopGenerationTimeThreshold s1 \<le> clock s1" "stopRequested (startTime (ctx t1)) s1"
    and b: "generateCalls s1 = generateCalls s" "pageGenerationQueue t1 = pageGenerationQueue t"
    by simp_all
  from Cons.prems(3) st have "fold (throttledStep e) evs (t1, s1) = (t', s')" by simp
  from Cons.IH [OF a this] b show ?case by simp
qed

lemma stop_check_resolves_false:
  assumes sr: "stopRequested (startTime (ctx t)) s" and u: "promise t = Unsettled"
    and ic: "isCompleted (ctx t)"
  shows "promise (fst (generatePage p (t, s))) = Resolved False"
    and "inFlight (fst (generatePage p (t, s))) = inFlight t"
    and "i < length (inFlight t) \<Longrightarrow> promise (fst (throttledStep e (Done i True) (t, s))) = Resolved False"
  using sr u ic
  by (auto simp: generatePage_def stopThrottled_def settle_def throttledStep_def
      generateSettled_def generateProgressBarStatus_def pageGenerated_frame Let_def)

lemma concurrent_stop:
  assumes c0: "stopGenerationTimeThreshold s0 \<le> clock s0" and bg: "backgroundBuildMode s0"
    and ts: "fold (throttledStep e) evs0 (startThrottled e ps s0) = (t, s)"
    and after: "clock s0 < clock s"
    and ts2: "fold (throttledStep e) evs (throttledStep e Stop (t, s)) = (t2, s2)"
  shows "stopRequested (startTime (ctx t2)) s2"
    and "generateCalls s2 = generateCalls s"
    and "pageGenerationQueue t2 = pageGenerationQueue t"
    and "promise t2 = Unsettled \<Longrightarrow> promise (fst (generatePage p (t2, s2))) = Resolved False"
    and "promise t2 = Unsettled \<Longrightarrow> inFlight (fst (generatePage p (t2, s2))) = inFlight t2"
    and "promise t2 = Unsettled \<Longrightarrow> i < length (inFlight t2) \<Longrightarrow>
           promise (fst (throttledStep e (Done i True) (t2, s2))) = Resolved False"
proof -
  from c0 have cc0: "clockConsistent s0" by (simp add: clockConsistent_def)
  obtain ta sa where st: "startThrottled e ps s0 = (ta, sa)"
    by (cases "startThrottled e ps s0") auto
  from startThrottled_ok [OF cc0 st]
  have sb0: "sameBuild s0 sa" and st0: "startTime (ctx ta) = clock s0" by simp_all
  from fold_throttledStep_sameBuild [OF sameBuild_consistent [OF sb0], of e evs0 ta] ts st
  have sb1: "sameBuild sa s" and st1: "startTime (ctx t) = startTime (ctx ta)" by simp_all
  have sb: "sameBuild s0 s" by (rule sameBuild_trans [OF sb0 sb1])
  from sb bg have bgs: "backgroundBuildMode s" and cs: "stopGenerationTimeThreshold s \<le> clock s"
    by (simp_all add: sameBuild_def)
  let ?s1 = "stopOngoingBuilds s"
  have step: "throttledStep e Stop (t, s) = (t, ?s1)" by (simp add: throttledStep_def)
  have c1: "stopGenerationTimeThreshold ?s1 \<le> clock ?s1" by (simp add: stopOngoingBuilds_def)
  have sr1: "stopRequested (startTime (ctx t)) ?s1"
    using bgs after st0 st1 by (simp add: stopRequested_def stopOngoingBuilds_def)
  from ts2 step have f: "fold (throttledStep e) evs (t, ?s1) = (t2, s2)" by simp
  from fold_throttledStep_stop_stays [OF c1 sr1 f]
  show sr2: "stopRequested (startTime (ctx t2)) s2" and "generateCalls s2 = generateCalls s"
    and "pageGenerationQueue t2 = pageGenerationQueue t"
    by (simp_all add: stopOngoingBuilds_def)
  have "countInv (length ps) (fst (startThrottled e ps s0))"
    by (rule startThrottled_inv(2) [OF c0])
  with fold_throttledStep_inv [OF startThrottled_inv(1) [OF c0] this, of "evs0 @ Stop # evs"] ts ts2
  have ci: "countInv (length ps) t2" by simp
  {
    assume u: "promise t2 = Unsettled"
    with ci have ic: "isCompleted (ctx t2)" by (simp add: countInv_def)
    from stop_check_resolves_false(1) [OF sr2 u ic]
    show "promise (fst (generatePage p (t2, s2))) = Resolved False" .
    from stop_check_resolves_false(2) [OF sr2 u ic]
    show "inFlight (fst (generatePage p (t2, s2))) = inFlight t2" .
    assume "i < length (inFlight t2)"
    from stop_check_resolves_false(3) [OF sr2 u ic this]
    show "promise (fst (throttledStep e (Done i True) (t2, s2))) = Resolved False" .
  }
qed

lemma awaitGenerate_env:
  "\<forall>ev \<in> set evs. ev = Tick \<or> ev = Stop \<Longrightarrow>
   \<exists>s1. awaitGenerate (evs @ Done i ok # es) s = (Some ok, s1, es)
      \<and> generateCalls s1 = generateCalls s \<and> toRebuild s1 = toRebuild s
      \<and> backgroundBuildMode s1 = backgroundBuildMode s \<and> clock s \<le> clock s1
      \<and> (Stop \<in> set evs \<longrightarrow> clock s \<le> stopGenerationTimeThreshold s1)
      \<and> (Stop \<notin> set evs \<longrightarrow> stopGenerationTimeThreshold s1 = stopGenerationTimeThreshold s)"
proof (induction evs arbitrary: s)
  case Nil
  then show ?case by simp
next
  case (Cons ev evs)
  from Cons.prems have rest: "\<forall>ev \<in> set evs. ev = Tick \<or> ev = Stop" and ev: "ev = Tick \<or> ev = Stop"
    by simp_all
  from ev show ?case
  proof
    assume t: "ev = Tick"
    from Cons.IH [OF rest, of "tick s"] obtain s1 where
      "awaitGenerate (evs @ Done i ok # es) (tick s) = (Some ok, s1, es)"
      "generateCalls s1 = generateCalls (tick s)" "toRebuild s1 = toRebuild (tick s)"
      "backgroundBuildMode s1 = backgroundBuildMode (tick s)" "clock (tick s) \<le> clock s1"
      "Stop \<in> set evs \<longrightarrow> clock (tick s) \<le> stopGenerationTimeThreshold s1"
      "Stop \<notin> set evs \<longrightarrow> stopGenerationTimeThreshold s1 = stopGenerationTimeThreshold (tick s)"
      by blast
    with t show ?thesis by (auto simp: tick_def)
  next
    assume t: "ev = Stop"
    from Cons.IH [OF rest, of "stopOngoingBuilds s"] obtain s1 where
      a: "awaitGenerate (evs @ Done i ok # es) (stopOngoingBuilds s) = (Some ok, s1, es)"
      "generateCalls s1 = generateCalls (stopOngoingBuilds s)"
      "toRebuild s1 = toRebuild (stopOngoingBuilds s)"
      "backgroundBuildMode s1 = backgroundBuildMode (stopOngoingBuilds s)"
      "clock (stopOngoingBuilds s) \<le> clock s1"
      "Stop \<in> set evs \<longrightarrow> clock (stopOngoingBuilds s) \<le> stopGenerationTimeThreshold s1"
      "Stop \<notin> set evs \<longrightarrow>
         stopGenerationTimeThreshold s1 = stopGenerationTimeThreshold (stopOngoingBuilds s)"
      by blast
    have "clock s \<le> stopGenerationTimeThreshold s1"
      using a(6,7) by (cases "Stop \<in> set evs") (simp_all add: stopOngoingBuilds_def)
    with t a show ?thesis by (simp add: stopOngoingBuilds_def)
  qed
qed

lemma sequentialLoop_last_page:
  assumes ns: "\<not> stopRequested t0 s" and env: "\<forall>ev \<in> set evs. ev = Tick \<or> ev = Stop"
  shows "\<exists>s2. sequentialLoop e t0 [p] completed s (evs @ Done i True # es)
                  = (Returned completed, s2, es)
             \<and> generateCalls s2 = generateCalls s @ [p]
             \<and> (backgroundBuildMode s \<and> t0 < clock s \<and> Stop \<in> set evs \<longrightarrow> stopRequested t0 s2)"
proof -
  from awaitGenerate_env [OF env, of i True es "callGenerate p s"] obtain s1 where
    a: "awaitGenerate (evs @ Done i True # es) (callGenerate p s) = (Some True, s1, es)"
    "generateCalls s1 = generateCalls (callGenerate p s)"
    "backgroundBuildMode s1 = backgroundBuildMode (callGenerate p s)"
    "Stop \<in> set evs \<longrightarrow> clock (callGenerate p s) \<le> stopGenerationTimeThreshold s1"
    by blast
  let ?s2 = "pageGenerated e p s1"
  from ns a(1) have "sequentialLoop e t0 [p] completed s (evs @ Done i True # es)
      = (Returned completed, ?s2, es)" by simp
  moreover have "generateCalls ?s2 = generateCalls s @ [p]"
    using a(2) by (simp add: pageGenerated_frame callGenerate_def)
  moreover have "backgroundBuildMode s \<and> t0 < clock s \<and> Stop \<in> set evs \<longrightarrow> stopRequested t0 ?s2"
    using a(3,4)
    by (auto simp: stopRequested_def callGenerate_def pageGenerated_def writeSiteData_def Let_def)
  ultimately show ?thesis by blast
qed

text \<open>
  C2, as stated, fails: the guards test \<^verbatim>\<open>this.backgroundBuildMode\<close> first. Outside
  background mode a stop call that comes while the first page of a sequential task is
  being generated changes nothing: the second page is dispatched and the task reports
  completion.
\<close>

theorem stopOngoingBuilds_foreground_counterexample:
  "fst (generatePagesSequential exampleEnv [indexPage, guidePage] exampleForegroundSite
          [Tick, Stop, Done 0 True, Done 0 True]) = Returned True
   \<and> generateCalls (fst (snd (generatePagesSequential exampleEnv [indexPage, guidePage]
          exampleForegroundSite [Tick, Stop, Done 0 True, Done 0 True]))) = [indexPage, guidePage]
   \<and> clock exampleForegroundSite
       < stopGenerationTimeThreshold (fst (snd (awaitGenerate [Tick, Stop, Done 0 True, Done 0 True]
            (callGenerate indexPage exampleForegroundSite))))"
  by (simp add: schedule_eval exampleEnv_def exampleForegroundSite_def mkSite_def indexPage_def
      guidePage_def mkPage_def)

text \<open>
  C2, amended: in background build mode, on a site whose threshold is not ahead of its
  clock. Let \<^verbatim>\<open>stopOngoingBuilds\<close> be called at the state \<open>s\<close>, when the clock is past the start
  time \<open>t0\<close> of a task, and let \<open>s1\<close> be any later state of the same build (the mode
  unchanged, threshold and clock only grown). Then the stop is still requested at \<open>s1\<close>.
  A sequential task checks before each page only: checked at \<open>s1\<close> with the pages \<open>ps\<close> left,
  it generates none of them and returns false if there is one, and what it had before if
  there is none; in particular a stop that comes while its last page is being generated
  (the events \<open>during\<close>, clock ticks and stop calls) is not seen, and the task returns what it
  had before, true if no earlier page was skipped. The task queue checked at \<open>s1\<close> with the tasks
  \<open>tasks\<close> left starts none of them and returns false if there is one. A concurrent task,
  started in background mode and stopped after its start time, dispatches no further page
  whatever events follow, and if its promise is not settled yet, the next check resolves it
  with false: the callback of a page about to start, and the completion of any page in
  flight.
\<close>

theorem stopOngoingBuilds_cancels:
  assumes bg: "backgroundBuildMode s" and c: "stopGenerationTimeThreshold s \<le> clock s"
    and after: "t0 < clock s" and later: "sameBuild (stopOngoingBuilds s) s1"
  shows "stopRequested t0 s1
     \<and> (\<exists>s2. sequentialLoop e t0 ps completed s1 es = (Returned (completed \<and> ps = []), s2, es)
             \<and> generateCalls s2 = generateCalls s1 \<and> toRebuild s2 = toRebuild s1)
     \<and> (\<exists>s2. tasksLoop e t0 tasks completed s1 es = (Returned (completed \<and> tasks = []), s2, es)
             \<and> generateCalls s2 = generateCalls s1 \<and> toRebuild s2 = toRebuild s1)
     \<and> (\<not> stopRequested t0 s \<and> (\<forall>ev \<in> set during. ev = Tick \<or> ev = Stop) \<longrightarrow>
          (\<exists>s2. sequentialLoop e t0 [p] completed s (during @ Done i True # es)
                  = (Returned completed, s2, es)
             \<and> generateCalls s2 = generateCalls s @ [p]
             \<and> (Stop \<in> set during \<longrightarrow> stopRequested t0 s2)))
     \<and> (\<forall>ps0 s0 evs0 evs.
           stopGenerationTimeThreshold s0 \<le> clock s0 \<and> backgroundBuildMode s0
           \<and> clock s0 < clock (snd (fold (throttledStep e) evs0 (startThrottled e ps0 s0)))
         \<longrightarrow> (let before = fold (throttledStep e) evs0 (startThrottled e ps0 s0);
                  later = fold (throttledStep e) evs (throttledStep e Stop before)
              in stopRequested (startTime (ctx (fst later))) (snd later)
                 \<and> generateCalls (snd later) = generateCalls (snd before)
                 \<and> pageGenerationQueue (fst later) = pageGenerationQueue (fst before)
                 \<and> (promise (fst later) = Unsettled \<longrightarrow>
                      (\<forall>q. promise (fst (generatePage q later)) = Resolved False
                           \<and> inFlight (fst (generatePage q later)) = inFlight (fst later))
                      \<and> (\<forall>j < length (inFlight (fst later)).
                            promise (fst (throttledStep e (Done j True) later)) = Resolved False))))"
proof -
  from later have c1: "stopGenerationTimeThreshold s1 \<le> clock s1"
    and "backgroundBuildMode s1 = backgroundBuildMode s" "clock s \<le> stopGenerationTimeThreshold s1"
    by (simp_all add: sameBuild_def stopOngoingBuilds_def)
  with bg after have sr: "stopRequested t0 s1" by (simp add: stopRequested_def)
  have seq: "\<exists>s2. sequentialLoop e t0 ps completed s1 es = (Returned (completed \<and> ps = []), s2, es)
             \<and> generateCalls s2 = generateCalls s1 \<and> toRebuild s2 = toRebuild s1"
    by (rule sequentialLoop_stopped [OF sr])
  have que: "\<exists>s2. tasksLoop e t0 tasks completed s1 es = (Returned (completed \<and> tasks = []), s2, es)
             \<and> generateCalls s2 = generateCalls s1 \<and> toRebuild s2 = toRebuild s1"
    by (rule tasksLoop_stopped [OF sr])
  have lastp: "\<not> stopRequested t0 s \<and> (\<forall>ev \<in> set during. ev = Tick \<or> ev = Stop) \<longrightarrow>
          (\<exists>s2. sequentialLoop e t0 [p] completed s (during @ Done i True # es)
                  = (Returned completed, s2, es)
             \<and> generateCalls s2 = generateCalls s @ [p]
             \<and> (Stop \<in> set during \<longrightarrow> stopRequested t0 s2))"
  proof
    assume a: "\<not> stopRequested t0 s \<and> (\<forall>ev \<in> set during. ev = Tick \<or> ev = Stop)"
    then have ns: "\<not> stopRequested t0 s" and env: "\<forall>ev \<in> set during. ev = Tick \<or> ev = Stop"
      by simp_all
    from sequentialLoop_last_page [OF ns env, of e p completed i es] bg after
    show "\<exists>s2. sequentialLoop e t0 [p] completed s (during @ Done i True # es)
                  = (Returned completed, s2, es)
             \<and> generateCalls s2 = generateCalls s @ [p]
             \<and> (Stop \<in> set during \<longrightarrow> stopRequested t0 s2)"
      by blast
  qed
  have con: "\<forall>ps0 s0 evs0 evs.
           stopGenerationTimeThreshold s0 \<le> clock s0 \<and> backgroundBuildMode s0
           \<and> clock s0 < clock (snd (fold (throttledStep e) evs0 (startThrottled e ps0 s0)))
         \<longrightarrow> (let before = fold (throttledStep e) evs0 (startThrottled e ps0 s0);
                  later = fold (throttledStep e) evs (throttledStep e Stop before)
              in stopRequested (startTime (ctx (fst later))) (snd later)
                 \<and> generateCalls (snd later) = generateCalls (snd before)
                 \<and> pageGenerationQueue (fst later) = pageGenerationQueue (fst before)
                 \<and> (promise (fst later) = Unsettled \<longrightarrow>
                      (\<forall>q. promise (fst (generatePage q later)) = Resolved False
                           \<and> inFlight (fst (generatePage q later)) = inFlight (fst later))
                      \<and> (\<forall>j < length (inFlight (fst later)).
                            promise (fst (throttledStep e (Done j True) later)) = Resolved False)))"
  proof (intro allI impI)
    fix ps0 s0 evs0 evs
    assume a: "stopGenerationTimeThreshold s0 \<le> clock s0 \<and> backgroundBuildMode s0
           \<and> clock s0 < clock (snd (fold (throttledStep e) evs0 (startThrottled e ps0 s0)))"
    obtain ta sa where ts: "fold (throttledStep e) evs0 (startThrottled e ps0 s0) = (ta, sa)"
      by (cases "fold (throttledStep e) evs0 (startThrottled e ps0 s0)") auto
    obtain t2 s2 where ts2: "fold (throttledStep e) evs (throttledStep e Stop (ta, sa)) = (t2, s2)"
      by (cases "fold (throttledStep e) evs (throttledStep e Stop (ta, sa))") auto
    from a ts have c0: "stopGenerationTimeThreshold s0 \<le> clock s0" and bg0: "backgroundBuildMode s0"
      and af: "clock s0 < clock sa" by simp_all
    note cs = concurrent_stop [OF c0 bg0 ts af ts2]
    show "let before = fold (throttledStep e) evs0 (startThrottled e ps0 s0);
                  later = fold (throttledStep e) evs (throttledStep e Stop before)
              in stopRequested (startTime (ctx (fst later))) (snd later)
                 \<and> generateCalls (snd later) = generateCalls (snd before)
                 \<and> pageGenerationQueue (fst later) = pageGenerationQueue (fst before)
                 \<and> (promise (fst later) = Unsettled \<longrightarrow>
                      (\<forall>q. promise (fst (generatePage q later)) = Resolved False
                           \<and> inFlight (fst (generatePage q later)) = inFlight (fst later))
                      \<and> (\<forall>j < length (inFlight (fst later)).
                            promise (fst (throttledStep e (Done j True) later)) = Resolved False))"
      unfolding Let_def ts ts2 using cs by simp
  qed
  from sr seq que lastp con show ?thesis by (intro conjI)
qed

theorem stopOngoingBuilds_cancels_witness:
  "backgroundBuildMode (tick (callGenerate indexPage exampleBackgroundSite))
   \<and> stopGenerationTimeThreshold (tick (callGenerate indexPage exampleBackgroundSite))
       \<le> clock (tick (callGenerate indexPage exampleBackgroundSite))
   \<and> 0 < clock (tick (callGenerate indexPage exampleBackgroundSite))
   \<and> sameBuild (stopOngoingBuilds (tick (callGenerate indexPage exampleBackgroundSite)))
        (stopOngoingBuilds (tick (callGenerate indexPage exampleBackgroundSite)))
   \<and> fst (sequentialLoop exampleEnv 0 [guidePage] True
        (stopOngoingBuilds (tick (callGenerate indexPage exampleBackgroundSite))) [Done 0 True])
       = Returned False
   \<and> generateCalls (fst (snd (generatePagesSequential exampleEnv [indexPage, guidePage]
        exampleBackgroundSite [Tick, Stop, Done 0 True, Done 0 True]))) = [indexPage]
   \<and> fst (generatePagesSequential exampleEnv [indexPage]
        exampleBackgroundSite [Tick, Stop, Done 0 True]) = Returned True
   \<and> fst (generatePagesAsyncThrottled exampleEnv [indexPage, guidePage, mkPage ''about.md'' True None]
        exampleBackgroundSite [Tick, Stop, Done 0 True, Done 0 True]) = Returned False
   \<and> generateCalls (fst (snd (generatePagesAsyncThrottled exampleEnv
        [indexPage, guidePage, mkPage ''about.md'' True None]
        exampleBackgroundSite [Tick, Stop, Done 0 True, Done 0 True]))) = [indexPage, guidePage]
   \<and> \<not> stopRequested 0 (tick (callGenerate indexPage exampleBackgroundSite))
   \<and> clock exampleBackgroundSite
       < clock (snd (fold (throttledStep exampleEnv) [Tick]
            (startThrottled exampleEnv [indexPage, guidePage, mkPage ''about.md'' True None]
               exampleBackgroundSite)))"
proof -
  let ?s = "tick (callGenerate indexPage exampleBackgroundSite)"
  have bg: "backgroundBuildMode ?s"
    and c: "stopGenerationTimeThreshold ?s \<le> clock ?s" and after: "0 < clock ?s"
    and later: "sameBuild (stopOngoingBuilds ?s) (stopOngoingBuilds ?s)"
    by (simp_all add: sameBuild_def tick_def callGenerate_def stopOngoingBuilds_def
        exampleBackgroundSite_def mkSite_def)
  from stopOngoingBuilds_cancels [OF bg c after later, where ps = "[guidePage]" and e = exampleEnv
      and completed = True and es = "[Done 0 True]", THEN conjunct2, THEN conjunct1]
  obtain s2 where "sequentialLoop exampleEnv 0 [guidePage] True (stopOngoingBuilds ?s) [Done 0 True]
       = (Returned (True \<and> [guidePage] = []), s2, [Done 0 True])" by blast
  then have x: "fst (sequentialLoop exampleEnv 0 [guidePage] True (stopOngoingBuilds ?s) [Done 0 True])
       = Returned (True \<and> [guidePage] = [])" by (simp only: fst_conv)
  have y: "Returned (True \<and> [guidePage] = []) = (Returned False :: bool outcome)" by simp
  from x y have 1: "fst (sequentialLoop exampleEnv 0 [guidePage] True (stopOngoingBuilds ?s) [Done 0 True])
       = Returned False" by (rule trans)
  have 2: "generateCalls (fst (snd (generatePagesSequential exampleEnv [indexPage, guidePage]
        exampleBackgroundSite [Tick, Stop, Done 0 True, Done 0 True]))) = [indexPage]"
    "fst (generatePagesSequential exampleEnv [indexPage]
        exampleBackgroundSite [Tick, Stop, Done 0 True]) = Returned True"
    "fst (generatePagesAsyncThrottled exampleEnv [indexPage, guidePage, mkPage ''about.md'' True None]
        exampleBackgroundSite [Tick, Stop, Done 0 True, Done 0 True]) = Returned False"
    "generateCalls (fst (snd (generatePagesAsyncThrottled exampleEnv
        [indexPage, guidePage, mkPage ''about.md'' True None]
        exampleBackgroundSite [Tick, Stop, Done 0 True, Done 0 True]))) = [indexPage, guidePage]"
    "\<not> stopRequested 0 (tick (callGenerate indexPage exampleBackgroundSite))"
    "clock exampleBackgroundSite
       < clock (snd (fold (throttledStep exampleEnv) [Tick]
            (startThrottled exampleEnv [indexPage, guidePage, mkPage ''about.md'' True None]
               exampleBackgroundSite)))"
    by (simp_all add: schedule_eval exampleEnv_def exampleBackgroundSite_def mkSite_def indexPage_def
        guidePage_def mkPage_def)
  from bg c after later 1 2 show ?thesis by (intro conjI)
qed

section \<open>The pending set: when a key leaves toRebuild\<close>

lemma awaitGenerate_keeps:
  "awaitGenerate es s = (r, s1, es1) \<Longrightarrow>
     generateCalls s1 = generateCalls s \<and> toRebuild s1 = toRebuild s"
  by (induction es s rule: awaitGenerate.induct)
    (auto simp: tick_def stopOngoingBuilds_def)

lemma sequentialLoop_toRebuild:
  "sequentialLoop e t0 ps c s es = (r, s', es') \<Longrightarrow>
   \<exists>calls. generateCalls s' = generateCalls s @ calls
      \<and> (calls = [] \<longrightarrow> (\<exists>b. r = Returned b))
      \<and> toRebuild s' = toRebuild s - normalizedUrl e ` set (completedCalls r calls)"
proof (induction ps arbitrary: c s es)
  case Nil
  then show ?case by (auto simp: completedCalls_def)
next
  case (Cons p ps)
  show ?case
  proof (cases "stopRequested t0 s")
    case True
    with Cons.prems have "sequentialLoop e t0 ps False
        (logDebug ''Page generation stopped at sequential generation'' s) es = (r, s', es')" by simp
    from Cons.IH [OF this] show ?thesis by (simp add: logDebug_frame)
  next
    case False
    obtain g s1 es1 where aw: "awaitGenerate es (callGenerate p s) = (g, s1, es1)"
      by (cases "awaitGenerate es (callGenerate p s)") auto
    from awaitGenerate_keeps [OF aw]
    have k: "generateCalls s1 = generateCalls s @ [p]" "toRebuild s1 = toRebuild s"
      by (simp_all add: callGenerate_def)
    show ?thesis
    proof (cases g)
      case None
      with Cons.prems False aw have "r = Pending" "s' = s1" by simp_all
      with k show ?thesis by (auto simp: completedCalls_def)
    next
      case (Some ok)
      show ?thesis
      proof (cases ok)
        case False
        with Cons.prems \<open>\<not> stopRequested t0 s\<close> aw Some
        have "r = Thrown (errorWhileGenerating p)" "s' = s1" by simp_all
        with k show ?thesis by (auto simp: completedCalls_def)
      next
        case True
        let ?s2 = "pageGenerated e p s1"
        from Cons.prems \<open>\<not> stopRequested t0 s\<close> aw Some True
        have "sequentialLoop e t0 ps c ?s2 es1 = (r, s', es')" by simp
        from Cons.IH [OF this] obtain calls where
          c: "generateCalls s' = generateCalls ?s2 @ calls"
          "calls = [] \<longrightarrow> (\<exists>b. r = Returned b)"
          "toRebuild s' = toRebuild ?s2 - normalizedUrl e ` set (completedCalls r calls)"
          by blast
        have cc: "completedCalls r (p # calls) = p # completedCalls r calls"
          using c(2) by (cases r) (auto simp: completedCalls_def)
        have "generateCalls s' = generateCalls s @ (p # calls)"
          using c(1) k(1) by (simp add: pageGenerated_frame)
        moreover have "toRebuild s' = toRebuild s - normalizedUrl e ` set (completedCalls r (p # calls))"
          unfolding cc c(3) using k(2) by (auto simp: pageGenerated_frame)
        ultimately show ?thesis by blast
      qed
    qed
  qed
qed

lemma throttledStep_toRebuild:
  "toRebuild (snd (throttledStep e ev (t, s)))
     = (case ev of
          Done i ok \<Rightarrow> if ok \<and> i < length (inFlight t)
                       then toRebuild s - {normalizedUrl e (inFlight t ! i)} else toRebuild s
        | Tick \<Rightarrow> toRebuild s | Stop \<Rightarrow> toRebuild s)"
proof (cases rule: throttledStep_cases [of e ev t s])
  case idle
  then show ?thesis by simp
next
  case env
  then show ?thesis by (auto simp: throttledStep_def tick_def stopOngoingBuilds_def)
next
  case (rejected i)
  then show ?thesis by simp
next
  case (stopped i)
  obtain t' s' where x: "stopThrottled (t\<lparr>inFlight := take i (inFlight t) @ drop (Suc i) (inFlight t)\<rparr>,
              pageGenerated e (inFlight t ! i) s) = (t', s')"
    by (cases "stopThrottled (t\<lparr>inFlight := take i (inFlight t) @ drop (Suc i) (inFlight t)\<rparr>,
              pageGenerated e (inFlight t ! i) s)") auto
  from stopThrottled_frame(4) [OF x] stopped(1,2) show ?thesis
    unfolding stopped(4) x by (simp add: pageGenerated_frame)
next
  case (refill i)
  then show ?thesis by (simp add: callGenerate_def pageGenerated_frame)
next
  case (counted i)
  then show ?thesis by (simp add: pageGenerated_frame)
qed

lemma generatePage_toRebuild: "toRebuild (snd (generatePage p (t, s))) = toRebuild s"
  by (simp add: generatePage_def stopThrottled_def callGenerate_def logDebug_def)

lemma find_pageExists:
  "find (\<lambda>page. normalizedUrl e page = u) ps = None \<longleftrightarrow> \<not> list_ex (\<lambda>page. normalizedUrl e page = u) ps"
  by (induction ps) simp_all

lemma find_Some_key:
  "find (\<lambda>page. normalizedUrl e page = u) ps = Some p \<Longrightarrow> normalizedUrl e p = u"
  by (induction ps) (simp_all split: if_splits)

lemma rebuildViewedCallback_step:
  "rebuildViewedCallback e u (s, fl) =
     (case find (\<lambda>page. normalizedUrl e page = u) (pages s) of
        None \<Rightarrow> (s, fl)
      | Some p \<Rightarrow> (callGenerate p (s\<lparr>toRebuild := toRebuild s - {u}\<rparr>), fl @ [p]))"
  by (simp add: rebuildViewedCallback_def)

lemma rebuildViewed_fold:
  "fold (rebuildViewedCallback e) us (s, fl) = (s', fl') \<Longrightarrow>
   pages s' = pages s
   \<and> toRebuild s' = toRebuild s - set (filter (pageExists e s) us)
   \<and> (\<exists>new. fl' = fl @ new \<and> generateCalls s' = generateCalls s @ new
         \<and> map (normalizedUrl e) new = filter (pageExists e s) us)"
proof (induction us arbitrary: s fl)
  case Nil
  then show ?case by simp
next
  case (Cons u us)
  show ?case
  proof (cases "find (\<lambda>page. normalizedUrl e page = u) (pages s)")
    case None
    then have no: "\<not> pageExists e s u" by (simp add: pageExists_def find_pageExists)
    have "rebuildViewedCallback e u (s, fl) = (s, fl)"
      unfolding rebuildViewedCallback_step None by simp
    with Cons.prems have "fold (rebuildViewedCallback e) us (s, fl) = (s', fl')" by simp
    from Cons.IH [OF this] no show ?thesis by simp
  next
    case (Some p)
    then have yes: "pageExists e s u" using find_pageExists [of e u "pages s"]
      by (simp add: pageExists_def)
    from Some have key: "normalizedUrl e p = u" by (rule find_Some_key)
    let ?s1 = "callGenerate p (s\<lparr>toRebuild := toRebuild s - {u}\<rparr>)"
    have s1: "pages ?s1 = pages s" "generateCalls ?s1 = generateCalls s @ [p]"
      "toRebuild ?s1 = toRebuild s - {u}" by (simp_all add: callGenerate_def)
    have same: "pageExists e ?s1 = pageExists e s"
      by (simp add: pageExists_def fun_eq_iff callGenerate_def)
    have "rebuildViewedCallback e u (s, fl) = (?s1, fl @ [p])"
      unfolding rebuildViewedCallback_step Some by simp
    with Cons.prems have "fold (rebuildViewedCallback e) us (?s1, fl @ [p]) = (s', fl')" by simp
    from Cons.IH [OF this] obtain new where
      n1: "pages s' = pages ?s1"
      and n2: "toRebuild s' = toRebuild ?s1 - set (filter (pageExists e ?s1) us)"
      and n3: "fl' = (fl @ [p]) @ new"
      and n4: "generateCalls s' = generateCalls ?s1 @ new"
      and n5: "map (normalizedUrl e) new = filter (pageExists e ?s1) us"
      by blast
    have a: "pages s' = pages s" unfolding n1 s1 by (rule refl)
    have b: "toRebuild s' = toRebuild s - set (filter (pageExists e s) (u # us))"
      unfolding n2 s1 same using yes by auto
    have c: "fl' = fl @ (p # new)" unfolding n3 by simp
    have d: "generateCalls s' = generateCalls s @ (p # new)" unfolding n4 s1 by simp
    have f: "map (normalizedUrl e) (p # new) = filter (pageExists e s) (u # us)"
      using n5 key yes unfolding same by simp
    from a b c d f show ?thesis by blast
  qed
qed

text \<open>
  C3, as stated, fails for the rebuild of the page being viewed: the key is deleted from
  \<^verbatim>\<open>toRebuild\<close> by the statement before \<^verbatim>\<open>pageToRebuild.generate(...)\<close> is called, so it has
  left the set while that call is still in flight.
\<close>

theorem rebuildPageBeingViewed_deletes_first_counterexample:
  "''/site/guide'' \<in> toRebuild exampleLazySite
   \<and> snd (rebuildPageBeingViewedNow exampleEnv [''/site/guide''] exampleLazySite) = [guidePage]
   \<and> normalizedUrl exampleEnv guidePage = ''/site/guide''
   \<and> ''/site/guide'' \<notin> toRebuild (fst (rebuildPageBeingViewedNow exampleEnv [''/site/guide'']
         exampleLazySite))"
  by (simp add: rebuildPageBeingViewedNow_def rebuildViewedCallback_def uniq_def callGenerate_def
      normalizedUrl_def exampleEnv_def exampleLazySite_def mkSite_def indexPage_def guidePage_def
      mkPage_def)

text \<open>
  C3, amended. In a sequential and in a concurrent task the key of a page leaves
  \<^verbatim>\<open>toRebuild\<close> when the \<^verbatim>\<open>generate\<close> call of that page resolves, and at no other moment:
  not when the call is dispatched, not when it rejects, not when time passes or a stop is
  requested. In the rebuild of the pages being viewed the key of every requested page that
  exists is deleted when its \<^verbatim>\<open>generate\<close> call is dispatched, so it is out of the set while
  the call is in flight.
\<close>

theorem toRebuild_leaves_on_completion:
  "toRebuild (snd (generatePage p (t, s))) = toRebuild s
   \<and> toRebuild (snd (throttledStep e ev (t, s)))
       = (case ev of
            Done i ok \<Rightarrow> if ok \<and> i < length (inFlight t)
                         then toRebuild s - {normalizedUrl e (inFlight t ! i)} else toRebuild s
          | Tick \<Rightarrow> toRebuild s | Stop \<Rightarrow> toRebuild s)
   \<and> (\<forall>r s' es'. sequentialLoop e t0 ps c s es = (r, s', es') \<longrightarrow>
         (\<exists>calls. generateCalls s' = generateCalls s @ calls
            \<and> toRebuild s' = toRebuild s - normalizedUrl e ` set (completedCalls r calls)))
   \<and> (\<forall>s' flying. rebuildPageBeingViewedNow e urls s = (s', flying) \<longrightarrow>
         generateCalls s' = generateCalls s @ flying
         \<and> map (normalizedUrl e) flying = filter (pageExists e s) (uniq urls)
         \<and> toRebuild s' = toRebuild s - normalizedUrl e ` set flying)"
proof (intro conjI allI impI)
  show "toRebuild (snd (generatePage p (t, s))) = toRebuild s" by (rule generatePage_toRebuild)
  show "toRebuild (snd (throttledStep e ev (t, s)))
       = (case ev of
            Done i ok \<Rightarrow> if ok \<and> i < length (inFlight t)
                         then toRebuild s - {normalizedUrl e (inFlight t ! i)} else toRebuild s
          | Tick \<Rightarrow> toRebuild s | Stop \<Rightarrow> toRebuild s)"
    by (rule throttledStep_toRebuild)
next
  fix r s' es'
  assume "sequentialLoop e t0 ps c s es = (r, s', es')"
  from sequentialLoop_toRebuild [OF this]
  show "\<exists>calls. generateCalls s' = generateCalls s @ calls
            \<and> toRebuild s' = toRebuild s - normalizedUrl e ` set (completedCalls r calls)"
    by blast
next
  fix s' flying
  assume "rebuildPageBeingViewedNow e urls s = (s', flying)"
  then have f: "fold (rebuildViewedCallback e) (uniq urls) (s, []) = (s', flying)"
    by (simp add: rebuildPageBeingViewedNow_def)
  from rebuildViewed_fold [OF f]
  have g: "generateCalls s' = generateCalls s @ flying"
    and m: "map (normalizedUrl e) flying = filter (pageExists e s) (uniq urls)"
    and tr: "toRebuild s' = toRebuild s - set (filter (pageExists e s) (uniq urls))"
    by simp_all
  show "generateCalls s' = generateCalls s @ flying" by (rule g)
  show "map (normalizedUrl e) flying = filter (pageExists e s) (uniq urls)" by (rule m)
  show "toRebuild s' = toRebuild s - normalizedUrl e ` set flying"
    unfolding tr m [symmetric] by simp
qed

theorem toRebuild_leaves_on_completion_witness:
  "(\<exists>calls. generateCalls (fst (snd (sequentialLoop exampleEnv 0 [indexPage, guidePage] True
            exampleBackgroundSite [Done 0 True, Done 0 False])))
          = generateCalls exampleBackgroundSite @ calls
      \<and> toRebuild (fst (snd (sequentialLoop exampleEnv 0 [indexPage, guidePage] True
            exampleBackgroundSite [Done 0 True, Done 0 False])))
          = toRebuild exampleBackgroundSite - normalizedUrl exampleEnv `
              set (completedCalls (fst (sequentialLoop exampleEnv 0 [indexPage, guidePage] True
                exampleBackgroundSite [Done 0 True, Done 0 False])) calls))
   \<and> (fst (sequentialLoop exampleEnv 0 [indexPage, guidePage] True exampleBackgroundSite
          [Done 0 True, Done 0 False]) = Thrown ''Error while generating undefined''
      \<and> ''/site/index'' \<in> toRebuild exampleBackgroundSite
      \<and> ''/site/index'' \<notin> toRebuild (fst (snd (sequentialLoop exampleEnv 0 [indexPage, guidePage]
          True exampleBackgroundSite [Done 0 True, Done 0 False])))
      \<and> ''/site/guide'' \<in> toRebuild (fst (snd (sequentialLoop exampleEnv 0 [indexPage, guidePage]
          True exampleBackgroundSite [Done 0 True, Done 0 False])))
      \<and> generateCalls (fst (snd (sequentialLoop exampleEnv 0 [indexPage, guidePage] True
          exampleBackgroundSite [Done 0 True, Done 0 False]))) = [indexPage, guidePage])"
proof -
  let ?R = "sequentialLoop exampleEnv 0 [indexPage, guidePage] True exampleBackgroundSite
          [Done 0 True, Done 0 False]"
  have a: "?R = (fst ?R, fst (snd ?R), snd (snd ?R))" by simp
  note t = toRebuild_leaves_on_completion [of indexPage
      "fst (startThrottled exampleEnv [] exampleBackgroundSite)" exampleBackgroundSite exampleEnv
      Tick 0 "[indexPage, guidePage]" True "[Done 0 True, Done 0 False]" "[]",
      THEN conjunct2, THEN conjunct2, THEN conjunct1, rule_format, OF a]
  have ev: "fst ?R = Thrown ''Error while generating undefined''
      \<and> ''/site/index'' \<in> toRebuild exampleBackgroundSite
      \<and> ''/site/index'' \<notin> toRebuild (fst (snd ?R))
      \<and> ''/site/guide'' \<in> toRebuild (fst (snd ?R))
      \<and> generateCalls (fst (snd ?R)) = [indexPage, guidePage]"
    by (simp add: schedule_eval exampleEnv_def exampleBackgroundSite_def mkSite_def indexPage_def
        guidePage_def mkPage_def)
  from t ev show ?thesis by (rule conjI)
qed

section \<open>A failing generate call\<close>

text \<open>
  C9. When a page's \<^verbatim>\<open>generate\<close> call fails, the task aborts at once: a sequential task
  throws and calls \<^verbatim>\<open>generate\<close> on no further page (the call of the failing page is the
  last one recorded, the rest of the schedule is left unread), and a concurrent task rejects
  its promise whatever else is in flight. The error thrown or rejected is
  \<^verbatim>\<open>Error while generating\<close> followed by the property \<^verbatim>\<open>page.sourcePath\<close> of the page object,
  which reads \<^verbatim>\<open>undefined\<close> when the page object has no such property; every other line of the
  class reads the source path as \<^verbatim>\<open>page.pageConfig.sourcePath\<close>.
\<close>

theorem generate_failure_aborts:
  "(\<not> stopRequested t0 s \<longrightarrow>
      sequentialLoop e t0 (p # rest) completed s (Done i False # es)
        = (Thrown (errorWhileGenerating p), callGenerate p s, es))
   \<and> (j < length (inFlight t) \<longrightarrow>
        throttledStep e (Done j False) (t, s)
          = (settle (Rejected (errorWhileGenerating (inFlight t ! j)))
               (t\<lparr>inFlight := take j (inFlight t) @ drop (Suc j) (inFlight t)\<rparr>), s)
        \<and> (promise t = Unsettled \<longrightarrow>
             promise (fst (throttledStep e (Done j False) (t, s)))
               = Rejected (errorWhileGenerating (inFlight t ! j))))
   \<and> errorWhileGenerating p
        = ''Error while generating '' @ (case pg_sourcePath p of None \<Rightarrow> ''undefined'' | Some x \<Rightarrow> x)"
  by (simp add: throttledStep_def generateSettled_def settle_def Let_def errorWhileGenerating_def)

theorem generate_failure_aborts_witness:
  "\<not> stopRequested 0 exampleForegroundSite
   \<and> fst (sequentialLoop exampleEnv 0 [indexPage, guidePage] True exampleForegroundSite
          [Done 0 False, Done 0 True]) = Thrown ''Error while generating undefined''
   \<and> generateCalls (fst (snd (sequentialLoop exampleEnv 0 [indexPage, guidePage] True
          exampleForegroundSite [Done 0 False, Done 0 True]))) = [indexPage]
   \<and> 0 < length (inFlight (fst (startThrottled exampleEnv [indexPage, guidePage]
          exampleForegroundSite)))
   \<and> promise (fst (throttledStep exampleEnv (Done 0 False)
          (startThrottled exampleEnv [indexPage, guidePage] exampleForegroundSite)))
       = Rejected ''Error while generating undefined''"
proof -
  let ?s = exampleForegroundSite
  let ?ts = "startThrottled exampleEnv [indexPage, guidePage] ?s"
  have h: "\<not> stopRequested 0 ?s"
    by (simp add: stopRequested_def exampleForegroundSite_def mkSite_def)
  have k: "0 < length (inFlight (fst ?ts))"
    by (simp add: schedule_eval exampleEnv_def exampleForegroundSite_def mkSite_def)
  have u: "promise (fst ?ts) = Unsettled"
    by (simp add: schedule_eval exampleEnv_def exampleForegroundSite_def mkSite_def)
  have m: "inFlight (fst ?ts) ! 0 = indexPage"
    by (simp add: schedule_eval exampleEnv_def exampleForegroundSite_def mkSite_def)
  from generate_failure_aborts [of 0 ?s exampleEnv indexPage "[guidePage]" True 0
      "[Done 0 True]" 0 "fst ?ts", THEN conjunct1, rule_format, OF h]
  have a: "sequentialLoop exampleEnv 0 [indexPage, guidePage] True ?s [Done 0 False, Done 0 True]
      = (Thrown (errorWhileGenerating indexPage), callGenerate indexPage ?s, [Done 0 True])" .
  from generate_failure_aborts [of 0 "snd ?ts" exampleEnv indexPage "[guidePage]" True 0
      "[Done 0 True]" 0 "fst ?ts", THEN conjunct2, THEN conjunct1, rule_format, OF k,
      THEN conjunct2, rule_format, OF u]
  have b: "promise (fst (throttledStep exampleEnv (Done 0 False) ?ts))
      = Rejected (errorWhileGenerating indexPage)"
    by (simp add: m)
  have c: "errorWhileGenerating indexPage = ''Error while generating undefined''"
    by (simp add: errorWhileGenerating_def indexPage_def mkPage_def)
  have d: "generateCalls (callGenerate indexPage ?s) = [indexPage]"
    by (simp add: callGenerate_def exampleForegroundSite_def mkSite_def)
  show ?thesis
    using h k by (simp add: a b c d)
qed

text \<open>
  C9, on the pages the site builds: \<^verbatim>\<open>createNewPage\<close> gives the page of \<^verbatim>\<open>a.md\<close> the source path
  \<^verbatim>\<open>/site/a.md\<close> in its \<^verbatim>\<open>pageConfig\<close>. When its \<^verbatim>\<open>generate\<close> call fails, the sequential task
  throws and the concurrent task rejects, the second page is never generated by the
  sequential task, and the error of both reads \<^verbatim>\<open>Error while generating undefined\<close>: it does
  not carry the source path.
\<close>

theorem generate_failure_message_counterexample:
  "pc_sourcePath (pageConfig (createNewPage exampleEnv exampleForegroundSite examplePageA)) = ''/site/a.md''
   \<and> fst (generatePagesSequential exampleEnv
          [createNewPage exampleEnv exampleForegroundSite examplePageA, createNewPage exampleEnv exampleForegroundSite examplePageB]
          exampleForegroundSite [Done 0 False, Done 0 True])
       = Thrown ''Error while generating undefined''
   \<and> generateCalls (fst (snd (generatePagesSequential exampleEnv
          [createNewPage exampleEnv exampleForegroundSite examplePageA, createNewPage exampleEnv exampleForegroundSite examplePageB]
          exampleForegroundSite [Done 0 False, Done 0 True])))
       = [createNewPage exampleEnv exampleForegroundSite examplePageA]
   \<and> fst (generatePagesAsyncThrottled exampleEnv
          [createNewPage exampleEnv exampleForegroundSite examplePageA, createNewPage exampleEnv exampleForegroundSite examplePageB]
          exampleForegroundSite [Done 0 False, Done 0 True])
       = Thrown ''Error while generating undefined''"
  by (simp add: schedule_eval createNewPage_def createPage_def exampleEnv_def
      exampleForegroundSite_def mkSite_def examplePageA_def examplePageB_def)

end
